theory Spec2Isabelle
  imports Complex_Main "HOL-Library.Log_Nat"
begin

section \<open>The sleep-with-progress utility\<close>

text \<open>
  The repository holds three variants of one C program, \<^verbatim>\<open>sleep_progress\<close>:
  \<^item> the basic variant (\<^verbatim>\<open>src/sleep_progress.c\<close>): \<^verbatim>\<open><seconds> [--multiline]\<close>,
    one progress line after every completed second;
  \<^item> two bar-capable variants (\<^verbatim>\<open>src/unnamed/part_000\<close> and \<^verbatim>\<open>part_001\<close>):
    \<^verbatim>\<open><seconds> [--multiline] [--quiet]\<close>, a progress line with a 20-cell bar and a
    percentage before every second and once more at the end. The two files have the same
    control flow and the same arithmetic; \<^verbatim>\<open>part_001\<close> only adds ANSI colour escapes to
    its string literals, so one model (prefix \<open>bar_\<close>) stands for both.

  The model is a shallow embedding. \<^verbatim>\<open>long\<close> values are \<open>int\<close> (the only place where the
  width of \<^verbatim>\<open>long\<close> matters is the range check of \<^verbatim>\<open>strtol\<close>, which is written out);
  \<^verbatim>\<open>float\<close> values are the rationals they denote, every operation rounded to binary32;
  an output statement is an event carrying the values of its arguments; the asynchronous
  interrupt flag is an input: the environment says, for every iteration of the loop,
  what each read of the flag returns.
\<close>

subsection \<open>Single-precision arithmetic\<close>

text \<open>
  \<^verbatim>\<open>print_bar\<close> computes in \<^verbatim>\<open>float\<close>. The model is IEEE 754 binary32 with the default
  rounding (to nearest, ties to even), every operation rounded once
  (\<^verbatim>\<open>FLT_EVAL_METHOD = 0\<close>, as on x86-64 and AArch64). A finite \<^verbatim>\<open>float\<close> is modelled by the
  rational number it denotes. \<open>f32_round\<close> rounds a rational to 24 significant bits; it
  is exact for magnitudes in the normal range of binary32, which covers every value
  \<^verbatim>\<open>print_bar\<close> can produce from two 64-bit integers (no overflow, no subnormal).
\<close>

definition pow2 :: "int \<Rightarrow> rat" where
  "pow2 n = (if 0 \<le> n then 2 ^ nat n else 1 / 2 ^ nat (- n))"

text \<open>Round to the nearest integer, ties to the even one.\<close>

definition rne :: "rat \<Rightarrow> int" where
  "rne x = (let f = \<lfloor>x\<rfloor>; r = x - of_int f in
     if r < 1 / 2 then f else if 1 / 2 < r then f + 1 else if even f then f else f + 1)"

text \<open>The binary exponent \<open>p\<close> of a positive rational: \<open>2^p \<le> x < 2^(p+1)\<close>.\<close>

definition f32_exponent :: "rat \<Rightarrow> int" where
  "f32_exponent x = (case quotient_of x of (a, b) \<Rightarrow>
     let p = bitlen a - bitlen b in if pow2 p \<le> x then p else p - 1)"

definition f32_round :: "rat \<Rightarrow> rat" where
  "f32_round x = (if x = 0 then 0 else
     let p = f32_exponent \<bar>x\<bar>
     in sgn x * of_int (rne (\<bar>x\<bar> * pow2 (23 - p))) * pow2 (p - 23))"

text \<open>\<^verbatim>\<open>(float)n\<close> for a \<^verbatim>\<open>long\<close> or \<^verbatim>\<open>int\<close>, \<^verbatim>\<open>a / b\<close> and \<^verbatim>\<open>a * b\<close> on \<^verbatim>\<open>float\<close>, and
  \<^verbatim>\<open>(int)x\<close>, which truncates towards zero.\<close>

definition f32_of_long :: "int \<Rightarrow> rat" where
  "f32_of_long n = f32_round (of_int n)"

definition f32_div :: "rat \<Rightarrow> rat \<Rightarrow> rat" where
  "f32_div a b = f32_round (a / b)"

definition f32_mul :: "rat \<Rightarrow> rat \<Rightarrow> rat" where
  "f32_mul a b = f32_round (a * b)"

definition int_of_f32 :: "rat \<Rightarrow> int" where
  "int_of_f32 x = (if 0 \<le> x then \<lfloor>x\<rfloor> else \<lceil>x\<rceil>)"

text \<open>
  The binary exponent again, found by search: \<open>find_exponent n p x\<close> is the first \<open>q\<close>
  among \<open>p, p - 1, \<dots>, p - n\<close> with \<open>2^q \<le> x\<close> (and \<open>p - n\<close> if there is none). For
  \<open>2^(p-n) \<le> x < 2^(p+1)\<close> it is \<open>f32_exponent x\<close>; it is what the proofs evaluate.
\<close>

fun find_exponent :: "nat \<Rightarrow> int \<Rightarrow> rat \<Rightarrow> int" where
  "find_exponent 0 p x = p"
| "find_exponent (Suc n) p x = (if pow2 p \<le> x then p else find_exponent n (p - 1) x)"

subsection \<open>The progress bar\<close>

text \<open>
  \<^verbatim>\<open>
  static void print_bar(long elapsed, long total) {
      const int BAR_WIDTH = 20;
      float percentage = (total == 0) ? 1.0f : (float)elapsed / total;
      int filled_width = (int)(percentage * BAR_WIDTH);
      printf(" [");
      for (int i = 0; i < BAR_WIDTH; ++i) {
          if (i < filled_width) putchar('#');
          else putchar('-');
      }
      printf("] %3d%%", (int)(percentage * 100));
  }
  \<close>
  In \<^verbatim>\<open>(float)elapsed / total\<close> the divisor is converted to \<^verbatim>\<open>float\<close> as well, and in the two
  products the \<^verbatim>\<open>int\<close> factor is. The variable \<^verbatim>\<open>total\<close> is written \<open>total'\<close>.
\<close>

definition BAR_WIDTH :: int where
  "BAR_WIDTH = 20"

definition percentage :: "int \<Rightarrow> int \<Rightarrow> rat" where
  "percentage elapsed total' =
     (if total' = 0 then 1 else f32_div (f32_of_long elapsed) (f32_of_long total'))"

definition filled_width :: "int \<Rightarrow> int \<Rightarrow> int" where
  "filled_width elapsed total' =
     int_of_f32 (f32_mul (percentage elapsed total') (f32_of_long BAR_WIDTH))"

definition percent_shown :: "int \<Rightarrow> int \<Rightarrow> int" where
  "percent_shown elapsed total' =
     int_of_f32 (f32_mul (percentage elapsed total') (f32_of_long 100))"

datatype cell = Filled | Empty

text \<open>The cells the \<^verbatim>\<open>for\<close> loop writes, for \<open>i = 0, \<dots>, BAR_WIDTH - 1\<close>.\<close>

definition bar_cells :: "int \<Rightarrow> cell list" where
  "bar_cells fw = map (\<lambda>i. if i < fw then Filled else Empty) [0..BAR_WIDTH - 1]"

text \<open>The number of filled cells in the bar that \<^verbatim>\<open>print_bar\<close> writes.\<close>

definition filled_cells :: "int \<Rightarrow> int \<Rightarrow> nat" where
  "filled_cells elapsed total' =
     length (filter (\<lambda>c. c = Filled) (bar_cells (filled_width elapsed total')))"

text \<open>
  Two bounds used to compare the bar with the exact quotient \<open>e / d\<close>. For a duration
  \<open>d \<le> 762612\<close> and \<open>20 e < t d\<close> the quotient is at most \<open>fill_bound t\<close>; for
  \<open>d \<le> 147218\<close> and \<open>100 e < t d\<close> it is at most \<open>percent_bound t\<close>. The bounds for
  \<open>t = 17\<close> and \<open>t = 79\<close> are lower than the others: no duration from 762601 to 762612
  has an \<open>e\<close> with \<open>17 d - 20 e = 1\<close>, and none from 147169 to 147218 has one with
  \<open>79 d - 100 e = 1\<close>.
\<close>

definition fill_bound :: "int \<Rightarrow> rat" where
  "fill_bound t = of_int t / 20 - 1 / (20 * (if t = 17 then 762600 else 762612))"

definition percent_bound :: "int \<Rightarrow> rat" where
  "percent_bound t = of_int t / 100 - 1 / (100 * (if t = 79 then 147168 else 147218))"

subsection \<open>Output and the trace of a run\<close>

text \<open>
  One constructor per output statement of the sources, with the values of its arguments.
  \<open>SleepCall\<close> marks a call of \<^verbatim>\<open>sleep_one_second\<close>, so that the trace orders the
  sleeps with the output.
\<close>

datatype event =
    Usage                    \<comment> \<open>\<^verbatim>\<open>Usage: %s <seconds> ...\<close>, standard error\<close>
  | ErrNotInteger            \<comment> \<open>\<^verbatim>\<open>Error: <seconds> must be a non-negative integer.\<close>, standard error\<close>
  | ErrMissing               \<comment> \<open>\<^verbatim>\<open>Error: Missing <seconds> argument.\<close>, standard error\<close>
  | StartEta                 \<comment> \<open>\<^verbatim>\<open>Start Time: %s | ETA: %s\<close> (bar variants)\<close>
  | Sleeping int             \<comment> \<open>\<^verbatim>\<open>Sleeping for %ld second%s...\<close>\<close>
  | Progress bool int int    \<comment> \<open>\<^verbatim>\<open>Elapsed: %ld s | Remaining: %ld s\<close>; the flag says whether
                                 the line starts with a carriage return (single-line mode)\<close>
  | Bar "cell list" int      \<comment> \<open>what \<^verbatim>\<open>print_bar\<close> writes: the cells and the percentage\<close>
  | Padding                  \<comment> \<open>four spaces after the bar in single-line mode\<close>
  | Newline                  \<comment> \<open>a line feed on standard output\<close>
  | InterruptedMsg int int   \<comment> \<open>\<^verbatim>\<open>Interrupted at %ld/%ld seconds.\<close>, standard error\<close>
  | DoneMsg int              \<comment> \<open>the final summary (\<^verbatim>\<open>Done. ...\<close>)\<close>
  | SleepCall                \<comment> \<open>a call of \<^verbatim>\<open>sleep_one_second\<close>\<close>

fun on_stderr :: "event \<Rightarrow> bool" where
  "on_stderr Usage = True"
| "on_stderr ErrNotInteger = True"
| "on_stderr ErrMissing = True"
| "on_stderr (InterruptedMsg e t) = True"
| "on_stderr ev = False"

definition print_bar :: "int \<Rightarrow> int \<Rightarrow> event" where
  "print_bar elapsed total' =
     Bar (bar_cells (filled_width elapsed total')) (percent_shown elapsed total')"

subsection \<open>Parsing the duration\<close>

text \<open>
  \<^verbatim>\<open>strtol\<close> belongs to the C library. The model follows ISO C (7.22.1.4) for base 10
  in the C locale: leading white space is skipped, one sign is optional, then the longest
  run of decimal digits is converted. With no digit nothing is converted: the result is 0
  and the end pointer is the start of the string. A value outside \<^verbatim>\<open>long\<close> is clamped and
  \<^verbatim>\<open>errno\<close> becomes \<^verbatim>\<open>ERANGE\<close>; otherwise \<^verbatim>\<open>errno\<close> is left as it was. \<^verbatim>\<open>long\<close> has 64 bits
  (LP64). \<open>endp\<close> is the offset of the end pointer from the start of the string.
\<close>

definition isspace :: "char \<Rightarrow> bool" where
  "isspace c = (c \<in> set [CHR '' '', CHR 0x09, CHR 0x0A, CHR 0x0B, CHR 0x0C, CHR 0x0D])"

definition isdigit :: "char \<Rightarrow> bool" where
  "isdigit c = (c \<in> set ''0123456789'')"

definition digit_value :: "char \<Rightarrow> int" where
  "digit_value c = of_char c - 48"

definition decimal :: "string \<Rightarrow> int" where
  "decimal ds = foldl (\<lambda>acc c. 10 * acc + digit_value c) 0 ds"

definition LONG_MAX :: int where
  "LONG_MAX = 2 ^ 63 - 1"

definition LONG_MIN :: int where
  "LONG_MIN = - (2 ^ 63)"

definition ERANGE :: int where
  "ERANGE = 34"

record strtol_result =
  ret :: int
  endp :: nat
  errno' :: int

definition strtol :: "string \<Rightarrow> int \<Rightarrow> strtol_result" where
  "strtol nptr errno =
     (let ws = takeWhile isspace nptr;
          s1 = dropWhile isspace nptr;
          neg = (case s1 of [] \<Rightarrow> False | c # cs \<Rightarrow> c = CHR ''-'');
          signed = (case s1 of [] \<Rightarrow> False | c # cs \<Rightarrow> c = CHR ''-'' \<or> c = CHR ''+'');
          s2 = (if signed then tl s1 else s1);
          ds = takeWhile isdigit s2;
          v = (if neg then - decimal ds else decimal ds)
      in if ds = [] then \<lparr>ret = 0, endp = 0, errno' = errno\<rparr>
         else \<lparr>ret = (if LONG_MAX < v then LONG_MAX else if v < LONG_MIN then LONG_MIN else v),
               endp = length ws + (if signed then 1 else 0) + length ds,
               errno' = (if LONG_MAX < v \<or> v < LONG_MIN then ERANGE else errno)\<rparr>)"

text \<open>
  The test both parsers apply to the result of \<^verbatim>\<open>strtol\<close> on the token \<open>a\<close>:
  \<^verbatim>\<open>errno != 0 || end == argv[i] || *end != '\0' || total < 0\<close>.
\<close>

definition rejected :: "string \<Rightarrow> strtol_result \<Rightarrow> bool" where
  "rejected a r = (errno' r \<noteq> 0 \<or> endp r = 0 \<or> endp r < length a \<or> ret r < 0)"

subsection \<open>Command lines\<close>

text \<open>
  \<open>args\<close> is \<^verbatim>\<open>argv[1], \<dots>, argv[argc - 1]\<close>, so \<^verbatim>\<open>argc\<close> is \<open>length args + 1\<close>. A parser
  returns the message of its usage error (\<open>Inl\<close>; \<^verbatim>\<open>main\<close> then returns 1) or the
  configuration of the run.

  The basic variant (\<^verbatim>\<open>src/sleep_progress.c\<close>, lines 82 to 98): \<^verbatim>\<open>argv[1]\<close> is the duration,
  \<^verbatim>\<open>argv[2]\<close>, if there is one, is compared with \<^verbatim>\<open>--multiline\<close>; \<^verbatim>\<open>errno\<close> is set to 0
  before \<^verbatim>\<open>strtol\<close>.
\<close>

record config =
  multiline :: bool
  total' :: int

definition basic_args :: "string list \<Rightarrow> event + config" where
  "basic_args args =
     (let argc = int (length args) + 1
      in if argc < 2 \<or> 3 < argc then Inl Usage
         else let ml = (argc = 3 \<and> args ! 1 = ''--multiline'');
                  r = strtol (args ! 0) 0
              in if rejected (args ! 0) r then Inl ErrNotInteger
                 else Inr \<lparr>multiline = ml, total' = ret r\<rparr>)"

text \<open>
  The bar variants (\<^verbatim>\<open>part_000\<close>, lines 83 to 111): a \<^verbatim>\<open>for\<close> loop over all arguments;
  \<^verbatim>\<open>total\<close> starts at the sentinel \<open>-1\<close>, and a token that is none of the three flags is
  given to \<^verbatim>\<open>strtol\<close> while \<^verbatim>\<open>total\<close> is still \<open>-1\<close>. \<^verbatim>\<open>errno\<close> is not reset here: it has
  the value of program start, which is 0, until \<^verbatim>\<open>strtol\<close> changes it.
\<close>

record bar_config = config +
  quiet :: bool

fun bar_scan :: "string list \<Rightarrow> bar_config \<Rightarrow> int \<Rightarrow> event + bar_config" where
  "bar_scan [] cfg errno = Inr cfg"
| "bar_scan (a # rest) cfg errno =
     (if a = ''--multiline'' then bar_scan rest (cfg\<lparr>multiline := True\<rparr>) errno
      else if a = ''--quiet'' \<or> a = ''-q'' then bar_scan rest (cfg\<lparr>quiet := True\<rparr>) errno
      else if total' cfg = - 1 then
        (let r = strtol a errno
         in if rejected a r then Inl ErrNotInteger
            else bar_scan rest (cfg\<lparr>total' := ret r\<rparr>) (errno' r))
      else bar_scan rest cfg errno)"

definition bar_args :: "string list \<Rightarrow> event + bar_config" where
  "bar_args args =
     (if int (length args) + 1 < 2 then Inl Usage
      else case bar_scan args \<lparr>multiline = False, total' = - 1, quiet = False\<rparr> 0 of
             Inl msg \<Rightarrow> Inl msg
           | Inr cfg \<Rightarrow> if total' cfg = - 1 then Inl ErrMissing else Inr cfg)"

subsection \<open>The interrupt latch and the sleep\<close>

text \<open>
  The flag \<^verbatim>\<open>interrupted\<close> is written by the signal handler (or the console handler) and
  read by \<^verbatim>\<open>was_interrupted\<close>. What a read returns is decided by the environment. For
  the iteration of the loop that starts with \<^verbatim>\<open>elapsed = e\<close>, \<open>env e\<close> gives
  \<^item> \<open>latch_before\<close>: the flag as read by the check before the sleep;
  \<^item> \<open>wakeups\<close>: one entry for every time \<^verbatim>\<open>nanosleep\<close> returns early with \<^verbatim>\<open>EINTR\<close>
    during this second, holding the flag as read then (on Windows \<^verbatim>\<open>Sleep(1000)\<close> never
    returns early: the list is empty);
  \<^item> \<open>latch_after\<close>: the flag when the sleep has returned (the bar variants read it
    there; the basic variant does not).

  \<^verbatim>\<open>install_handler\<close> only registers the handler. The model takes the registration to
  succeed; when it fails the basic variant writes a warning to standard error and goes
  on, and the bar variants go on silently.
\<close>

record tick =
  latch_before :: bool
  wakeups :: "bool list"
  latch_after :: bool

type_synonym env = "int \<Rightarrow> tick"

definition was_interrupted :: "bool \<Rightarrow> int" where
  "was_interrupted interrupted = (if interrupted then 1 else 0)"

text \<open>
  \<^verbatim>\<open>
  static int sleep_one_second(void) {
      struct timespec ts = { .tv_sec = 1, .tv_nsec = 0 };
      while (nanosleep(&ts, &ts) == -1 && errno == EINTR) {
          if (was_interrupted()) return -1;
      }
      return 0;
  }
  \<close>
\<close>

fun sleep_one_second :: "bool list \<Rightarrow> int" where
  "sleep_one_second [] = 0"
| "sleep_one_second (interrupted # later) =
     (if was_interrupted interrupted \<noteq> 0 then - 1 else sleep_one_second later)"

subsection \<open>The countdown loop\<close>

text \<open>
  The state of the loop: the variable \<^verbatim>\<open>elapsed\<close>, what has been written and slept so
  far, and where control is: in the loop, past it, or out of \<^verbatim>\<open>main\<close> by a \<^verbatim>\<open>return\<close>
  inside the loop.
\<close>

datatype status = Running | Finished | Returned int

record loop_state =
  elapsed :: int
  trace :: "event list"
  status :: status

text \<open>
  One evaluation of the loop condition and, if it holds, of the body
  (\<^verbatim>\<open>src/sleep_progress.c\<close>, lines 111 to 133).
\<close>

definition basic_iteration :: "config \<Rightarrow> tick \<Rightarrow> loop_state \<Rightarrow> loop_state" where
  "basic_iteration cfg t s =
     (if elapsed s < total' cfg then
        if was_interrupted (latch_before t) \<noteq> 0 then
          s\<lparr>trace := trace s @ (if \<not> multiline cfg then [Newline] else [])
                   @ [InterruptedMsg (elapsed s) (total' cfg)],
            status := Returned 130\<rparr>
        else if sleep_one_second (wakeups t) \<noteq> 0 then
          s\<lparr>trace := trace s @ [SleepCall] @ (if \<not> multiline cfg then [Newline] else [])
                   @ [InterruptedMsg (elapsed s) (total' cfg)],
            status := Returned 130\<rparr>
        else
          let e = elapsed s + 1; remaining = total' cfg - e
          in s\<lparr>elapsed := e,
               trace := trace s @ [SleepCall, Progress (\<not> multiline cfg) e remaining]\<rparr>
      else s\<lparr>status := Finished\<rparr>)"

function basic_loop :: "config \<Rightarrow> env \<Rightarrow> loop_state \<Rightarrow> loop_state" where
  "basic_loop cfg env s =
     (if status s = Running then basic_loop cfg env (basic_iteration cfg (env (elapsed s)) s)
      else s)"
  by pat_completeness auto
termination
  by (relation "measure (\<lambda>(cfg, env, s).
        if status s = Running then nat (total' cfg - elapsed s) + 1 else 0)")
     (auto simp: basic_iteration_def Let_def)

text \<open>
  The bar variants (\<^verbatim>\<open>part_000\<close>, lines 127 to 151): the progress line is written first,
  the loop is left by \<^verbatim>\<open>break\<close> when \<^verbatim>\<open>elapsed == total\<close>, and the flag is read a second
  time after the sleep.
\<close>

definition render :: "bar_config \<Rightarrow> int \<Rightarrow> event list" where
  "render cfg e =
     (if \<not> quiet cfg then
        if multiline cfg then
          [Progress False e (total' cfg - e), print_bar e (total' cfg), Newline]
        else
          [Progress True e (total' cfg - e), print_bar e (total' cfg), Padding]
      else [])"

definition bar_iteration :: "bar_config \<Rightarrow> tick \<Rightarrow> loop_state \<Rightarrow> loop_state" where
  "bar_iteration cfg t s =
     (if elapsed s \<le> total' cfg then
        let out = trace s @ render cfg (elapsed s);
            bye = (if \<not> quiet cfg \<and> \<not> multiline cfg then [Newline] else [])
                  @ [InterruptedMsg (elapsed s) (total' cfg)]
        in if elapsed s = total' cfg then s\<lparr>trace := out, status := Finished\<rparr>
           else if was_interrupted (latch_before t) \<noteq> 0 then
             s\<lparr>trace := out @ bye, status := Returned 130\<rparr>
           else if sleep_one_second (wakeups t) \<noteq> 0 then
             s\<lparr>trace := out @ [SleepCall] @ bye, status := Returned 130\<rparr>
           else if was_interrupted (latch_after t) \<noteq> 0 then
             s\<lparr>trace := out @ [SleepCall] @ bye, status := Returned 130\<rparr>
           else s\<lparr>elapsed := elapsed s + 1, trace := out @ [SleepCall]\<rparr>
      else s\<lparr>status := Finished\<rparr>)"

function bar_loop :: "bar_config \<Rightarrow> env \<Rightarrow> loop_state \<Rightarrow> loop_state" where
  "bar_loop cfg env s =
     (if status s = Running then bar_loop cfg env (bar_iteration cfg (env (elapsed s)) s)
      else s)"
  by pat_completeness auto
termination
  by (relation "measure (\<lambda>(cfg, env, s).
        if status s = Running then nat (total' cfg - elapsed s) + 1 else 0)")
     (auto simp: bar_iteration_def Let_def)

subsection \<open>The program\<close>

text \<open>
  What a run leaves behind: the exit code, the trace, and the last value of \<^verbatim>\<open>elapsed\<close>
  (\<open>None\<close> when \<^verbatim>\<open>main\<close> returned before the variable was declared).
\<close>

record result =
  exit_code :: int
  events :: "event list"
  last_elapsed :: "int option"

definition usage_error :: "event \<Rightarrow> result" where
  "usage_error msg = \<lparr>exit_code = 1, events = [msg], last_elapsed = None\<rparr>"

text \<open>The state in which the loop is entered: \<^verbatim>\<open>elapsed = 0\<close>, the header written.\<close>

definition basic_start :: "config \<Rightarrow> loop_state" where
  "basic_start cfg = \<lparr>elapsed = 0, trace = [Sleeping (total' cfg)], status = Running\<rparr>"

definition basic_countdown :: "config \<Rightarrow> env \<Rightarrow> result" where
  "basic_countdown cfg env =
     (let s = basic_loop cfg env (basic_start cfg)
      in case status s of
           Returned code \<Rightarrow>
             \<lparr>exit_code = code, events = trace s, last_elapsed = Some (elapsed s)\<rparr>
         | _ \<Rightarrow>
             \<lparr>exit_code = 0,
              events = trace s @ (if \<not> multiline cfg then [Newline] else [])
                       @ [DoneMsg (total' cfg)],
              last_elapsed = Some (elapsed s)\<rparr>)"

definition basic_main :: "string list \<Rightarrow> env \<Rightarrow> result" where
  "basic_main args env =
     (case basic_args args of
        Inl msg \<Rightarrow> usage_error msg
      | Inr cfg \<Rightarrow> basic_countdown cfg env)"

definition bar_start :: "bar_config \<Rightarrow> loop_state" where
  "bar_start cfg =
     \<lparr>elapsed = 0, trace = [StartEta, Sleeping (total' cfg)], status = Running\<rparr>"

definition bar_countdown :: "bar_config \<Rightarrow> env \<Rightarrow> result" where
  "bar_countdown cfg env =
     (let s = bar_loop cfg env (bar_start cfg)
      in case status s of
           Returned code \<Rightarrow>
             \<lparr>exit_code = code, events = trace s, last_elapsed = Some (elapsed s)\<rparr>
         | _ \<Rightarrow>
             \<lparr>exit_code = 0,
              events = trace s @ (if \<not> quiet cfg \<and> \<not> multiline cfg then [Newline] else [])
                       @ [DoneMsg (total' cfg)],
              last_elapsed = Some (elapsed s)\<rparr>)"

definition bar_main :: "string list \<Rightarrow> env \<Rightarrow> result" where
  "bar_main args env =
     (case bar_args args of
        Inl msg \<Rightarrow> usage_error msg
      | Inr cfg \<Rightarrow> bar_countdown cfg env)"

text \<open>The number of calls of \<^verbatim>\<open>sleep_one_second\<close> in a run.\<close>

definition sleep_calls :: "result \<Rightarrow> nat" where
  "sleep_calls r = length (filter (\<lambda>ev. ev = SleepCall) (events r))"

subsection \<open>Variants, runs and environments\<close>

text \<open>
  The claims speak of all variants at once. \<open>run\<close> is \<^verbatim>\<open>main\<close> of the given variant
  and \<open>duration\<close> is the duration its parser accepts from the command line, if it
  accepts the command line.
\<close>

datatype variant = Basic | BarCapable

definition run :: "variant \<Rightarrow> string list \<Rightarrow> env \<Rightarrow> result" where
  "run v args env =
     (case v of Basic \<Rightarrow> basic_main args env | BarCapable \<Rightarrow> bar_main args env)"

definition duration :: "variant \<Rightarrow> string list \<Rightarrow> int option" where
  "duration v args =
     (case v of
        Basic \<Rightarrow> (case basic_args args of Inl msg \<Rightarrow> None | Inr cfg \<Rightarrow> Some (total' cfg))
      | BarCapable \<Rightarrow>
          (case bar_args args of Inl msg \<Rightarrow> None | Inr cfg \<Rightarrow> Some (total' cfg)))"

text \<open>No read of the flag during this iteration finds it set.\<close>

definition flag_clear :: "tick \<Rightarrow> bool" where
  "flag_clear t = (\<not> latch_before t \<and> True \<notin> set (wakeups t) \<and> \<not> latch_after t)"

text \<open>An environment in which the flag is never set, and one where it is set during
  the sleep of the iteration with \<^verbatim>\<open>elapsed = k\<close> while that sleep runs to its end.\<close>

definition calm :: tick where
  "calm = \<lparr>latch_before = False, wakeups = [], latch_after = False\<rparr>"

definition never_interrupted :: env where
  "never_interrupted = (\<lambda>e. calm)"

definition late_signal :: "int \<Rightarrow> env" where
  "late_signal k = (\<lambda>e. if e < k then calm
     else if e = k then \<lparr>latch_before = False, wakeups = [], latch_after = True\<rparr>
     else \<lparr>latch_before = True, wakeups = [], latch_after = True\<rparr>)"

text \<open>The events of the iterations with \<^verbatim>\<open>elapsed = a, \<dots>, b - 1\<close> when none of them is
  interrupted.\<close>

definition basic_ticks :: "config \<Rightarrow> int \<Rightarrow> int \<Rightarrow> event list" where
  "basic_ticks cfg a b =
     concat (map (\<lambda>e. [SleepCall, Progress (\<not> multiline cfg) (e + 1) (total' cfg - (e + 1))])
       [a..b - 1])"

definition bar_ticks :: "bar_config \<Rightarrow> int \<Rightarrow> int \<Rightarrow> event list" where
  "bar_ticks cfg a b = concat (map (\<lambda>e. render cfg e @ [SleepCall]) [a..b - 1])"

text \<open>
  What the reads of one iteration find. The basic variant reads the flag before the
  sleep and in the sleep; the bar variants read it once more after the sleep
  (\<^verbatim>\<open>was_interrupted() || sleep_one_second() != 0 || was_interrupted()\<close>).
\<close>

definition basic_sees :: "tick \<Rightarrow> bool" where
  "basic_sees t =
     (was_interrupted (latch_before t) \<noteq> 0 \<or> sleep_one_second (wakeups t) \<noteq> 0)"

definition bar_sees :: "tick \<Rightarrow> bool" where
  "bar_sees t =
     (was_interrupted (latch_before t) \<noteq> 0 \<or> sleep_one_second (wakeups t) \<noteq> 0
      \<or> was_interrupted (latch_after t) \<noteq> 0)"

definition sees :: "variant \<Rightarrow> tick \<Rightarrow> bool" where
  "sees v t = (case v of Basic \<Rightarrow> basic_sees t | BarCapable \<Rightarrow> bar_sees t)"

text \<open>The reachable states of the loop: the state after \<open>n\<close> evaluations of the loop
  condition (a state that has left the loop stays as it is).\<close>

fun basic_after :: "config \<Rightarrow> env \<Rightarrow> nat \<Rightarrow> loop_state" where
  "basic_after cfg env 0 = basic_start cfg"
| "basic_after cfg env (Suc n) =
     (let s = basic_after cfg env n
      in if status s = Running then basic_iteration cfg (env (elapsed s)) s else s)"

fun bar_after :: "bar_config \<Rightarrow> env \<Rightarrow> nat \<Rightarrow> loop_state" where
  "bar_after cfg env 0 = bar_start cfg"
| "bar_after cfg env (Suc n) =
     (let s = bar_after cfg env n
      in if status s = Running then bar_iteration cfg (env (elapsed s)) s else s)"

text \<open>The values of \<^verbatim>\<open>elapsed\<close> on the progress lines of a run, in the order in which
  they are written, and those written before the first call of \<^verbatim>\<open>sleep_one_second\<close>.\<close>

fun progress_elapsed :: "event \<Rightarrow> int list" where
  "progress_elapsed (Progress cr e r) = [e]"
| "progress_elapsed ev = []"

definition progress_lines :: "result \<Rightarrow> int list" where
  "progress_lines r = concat (map progress_elapsed (events r))"

definition progress_before_sleep :: "result \<Rightarrow> int list" where
  "progress_before_sleep r =
     concat (map progress_elapsed (takeWhile (\<lambda>ev. ev \<noteq> SleepCall) (events r)))"

subsection \<open>Kinds of tokens\<close>

text \<open>
  The three flags the bar variants know, and the token a variant takes as the duration:
  \<^verbatim>\<open>argv[1]\<close> in the basic variant, the first token that is none of the flags in the
  bar variants.
\<close>

definition is_flag :: "string \<Rightarrow> bool" where
  "is_flag a = (a = ''--multiline'' \<or> a = ''--quiet'' \<or> a = ''-q'')"

definition duration_token :: "variant \<Rightarrow> string list \<Rightarrow> string option" where
  "duration_token v args =
     (case v of
        Basic \<Rightarrow> (case args of [] \<Rightarrow> None | a # rest \<Rightarrow> Some a)
      | BarCapable \<Rightarrow> find (\<lambda>a. \<not> is_flag a) args)"

text \<open>
  The malformed durations the specification names, as shapes of the token. A token is
  read the way a number is written: white space, one optional sign, then the longest run
  of decimal digits, then the rest. It is not numeric when no digit stands there
  (\<^verbatim>\<open>abc\<close>, \<^verbatim>\<open>x5\<close>, \<^verbatim>\<open>.5\<close>, \<^verbatim>\<open>-\<close>, the empty token); it is negative when the sign is a
  minus and the digits denote a positive number (\<^verbatim>\<open>-5\<close>, \<^verbatim>\<open>-3.5\<close>); it has trailing
  garbage when something follows the digits (\<^verbatim>\<open>3.5\<close>, \<^verbatim>\<open>5x\<close>, \<^verbatim>\<open>+3.5\<close>). A token with
  none of the three is a non-negative decimal integer, and \<open>too_large\<close> says that this
  integer is more than \<^verbatim>\<open>LONG_MAX\<close>.
\<close>

definition after_space :: "string \<Rightarrow> string" where
  "after_space s = dropWhile isspace s"

definition minus_sign :: "string \<Rightarrow> bool" where
  "minus_sign s = (case after_space s of [] \<Rightarrow> False | c # cs \<Rightarrow> c = CHR ''-'')"

definition after_sign :: "string \<Rightarrow> string" where
  "after_sign s =
     (case after_space s of [] \<Rightarrow> []
      | c # cs \<Rightarrow> if c = CHR ''-'' \<or> c = CHR ''+'' then cs else c # cs)"

definition leading_digits :: "string \<Rightarrow> string" where
  "leading_digits s = takeWhile isdigit (after_sign s)"

definition after_digits :: "string \<Rightarrow> string" where
  "after_digits s = dropWhile isdigit (after_sign s)"

definition non_numeric :: "string \<Rightarrow> bool" where
  "non_numeric s = (leading_digits s = [])"

definition negative_number :: "string \<Rightarrow> bool" where
  "negative_number s = (minus_sign s \<and> 0 < decimal (leading_digits s))"

definition trailing_garbage :: "string \<Rightarrow> bool" where
  "trailing_garbage s = (leading_digits s \<noteq> [] \<and> after_digits s \<noteq> [])"

definition malformed :: "string \<Rightarrow> bool" where
  "malformed s = (non_numeric s \<or> negative_number s \<or> trailing_garbage s)"

definition too_large :: "string \<Rightarrow> bool" where
  "too_large s = (LONG_MAX < decimal (leading_digits s))"

section \<open>Properties\<close>

subsection \<open>The loop\<close>

declare basic_loop.simps [simp del] bar_loop.simps [simp del]

lemma was_interrupted_nonzero [simp]: "(was_interrupted b \<noteq> 0) = b"
  by (simp add: was_interrupted_def)

text \<open>The sleep reports an interrupt exactly when one of its early wake-ups finds the
  flag set.\<close>

lemma sleep_one_second_nonzero: "(sleep_one_second ws \<noteq> 0) = (True \<in> set ws)"
  by (induction ws) auto

lemma basic_ticks_empty [simp]: "basic_ticks cfg a a = []"
  by (simp add: basic_ticks_def)

lemma basic_ticks_step:
  "a < b \<Longrightarrow> basic_ticks cfg a b =
     [SleepCall, Progress (\<not> multiline cfg) (a + 1) (total' cfg - (a + 1))]
     @ basic_ticks cfg (a + 1) b"
  by (simp add: basic_ticks_def upto_rec1)

lemma basic_loop_stop: "status s \<noteq> Running \<Longrightarrow> basic_loop cfg env s = s"
  by (subst basic_loop.simps) simp

lemma basic_loop_unfold:
  "status s = Running \<Longrightarrow>
   basic_loop cfg env s = basic_loop cfg env (basic_iteration cfg (env (elapsed s)) s)"
  by (subst basic_loop.simps) simp

text \<open>While no read finds the flag set, the basic loop goes from \<^verbatim>\<open>elapsed\<close> to any
  \<open>j\<close> up to the duration, one sleep and one progress line per second.\<close>

lemma basic_loop_advance:
  assumes "status s = Running" "elapsed s \<le> j" "j \<le> total' cfg"
    and "\<forall>e\<in>{elapsed s..<j}. \<not> latch_before (env e) \<and> True \<notin> set (wakeups (env e))"
  shows "basic_loop cfg env s =
         basic_loop cfg env (s\<lparr>elapsed := j, trace := trace s @ basic_ticks cfg (elapsed s) j\<rparr>)"
  using assms
proof (induction "nat (j - elapsed s)" arbitrary: s)
  case 0
  then have "elapsed s = j" by simp
  then have "s\<lparr>elapsed := j, trace := trace s @ basic_ticks cfg (elapsed s) j\<rparr> = s"
    by (cases s) simp
  then show ?case by simp
next
  case (Suc n)
  then have lt: "elapsed s < j" by linarith
  let ?s' = "basic_iteration cfg (env (elapsed s)) s"
  from Suc.prems lt
  have clear: "\<not> latch_before (env (elapsed s))" "True \<notin> set (wakeups (env (elapsed s)))"
    by auto
  have s': "?s' = s\<lparr>elapsed := elapsed s + 1,
      trace := trace s @ [SleepCall,
        Progress (\<not> multiline cfg) (elapsed s + 1) (total' cfg - (elapsed s + 1))]\<rparr>"
    using lt Suc.prems(3) clear
    by (simp add: basic_iteration_def Let_def sleep_one_second_nonzero)
  have "basic_loop cfg env s = basic_loop cfg env ?s'"
    using Suc.prems(1) by (rule basic_loop_unfold)
  also have "\<dots> = basic_loop cfg env
      (?s'\<lparr>elapsed := j, trace := trace ?s' @ basic_ticks cfg (elapsed ?s') j\<rparr>)"
  proof (rule Suc.hyps(1))
    show "n = nat (j - elapsed ?s')" using Suc.hyps(2) by (simp add: s')
    show "status ?s' = Running" using Suc.prems(1) by (simp add: s')
    show "elapsed ?s' \<le> j" using lt by (simp add: s')
    show "j \<le> total' cfg" by fact
    show "\<forall>e\<in>{elapsed ?s'..<j}. \<not> latch_before (env e) \<and> True \<notin> set (wakeups (env e))"
      using Suc.prems(4) by (simp add: s')
  qed
  also have "?s'\<lparr>elapsed := j, trace := trace ?s' @ basic_ticks cfg (elapsed ?s') j\<rparr>
      = s\<lparr>elapsed := j, trace := trace s @ basic_ticks cfg (elapsed s) j\<rparr>"
    using lt by (simp add: s' basic_ticks_step)
  finally show ?case .
qed

lemma basic_loop_clear:
  assumes "0 \<le> total' cfg"
    and "\<forall>e\<in>{0..<total' cfg}. \<not> latch_before (env e) \<and> True \<notin> set (wakeups (env e))"
  shows "basic_loop cfg env (basic_start cfg) =
         \<lparr>elapsed = total' cfg,
          trace = [Sleeping (total' cfg)] @ basic_ticks cfg 0 (total' cfg),
          status = Finished\<rparr>"
proof -
  let ?s = "basic_start cfg"
  let ?t = "?s\<lparr>elapsed := total' cfg,
               trace := trace ?s @ basic_ticks cfg (elapsed ?s) (total' cfg)\<rparr>"
  have "basic_loop cfg env ?s = basic_loop cfg env ?t"
    by (rule basic_loop_advance) (use assms in \<open>simp_all add: basic_start_def\<close>)
  also have "\<dots> = basic_loop cfg env (basic_iteration cfg (env (elapsed ?t)) ?t)"
    by (rule basic_loop_unfold) (simp add: basic_start_def)
  also have "basic_iteration cfg (env (elapsed ?t)) ?t = ?t\<lparr>status := Finished\<rparr>"
    by (simp add: basic_iteration_def basic_start_def)
  also have "basic_loop cfg env (?t\<lparr>status := Finished\<rparr>) = ?t\<lparr>status := Finished\<rparr>"
    by (rule basic_loop_stop) simp
  finally show ?thesis by (simp add: basic_start_def)
qed

lemma basic_loop_interrupted:
  assumes "0 \<le> j" "j < total' cfg"
    and "\<forall>e\<in>{0..<j}. \<not> latch_before (env e) \<and> True \<notin> set (wakeups (env e))"
    and "latch_before (env j) \<or> True \<in> set (wakeups (env j))"
  shows "basic_loop cfg env (basic_start cfg) =
         \<lparr>elapsed = j,
          trace = [Sleeping (total' cfg)] @ basic_ticks cfg 0 j
                  @ (if latch_before (env j) then [] else [SleepCall])
                  @ (if \<not> multiline cfg then [Newline] else [])
                  @ [InterruptedMsg j (total' cfg)],
          status = Returned 130\<rparr>"
proof -
  let ?s = "basic_start cfg"
  let ?t = "?s\<lparr>elapsed := j, trace := trace ?s @ basic_ticks cfg (elapsed ?s) j\<rparr>"
  let ?u = "basic_iteration cfg (env (elapsed ?t)) ?t"
  have "basic_loop cfg env ?s = basic_loop cfg env ?t"
    by (rule basic_loop_advance) (use assms in \<open>simp_all add: basic_start_def\<close>)
  also have "\<dots> = basic_loop cfg env ?u"
    by (rule basic_loop_unfold) (simp add: basic_start_def)
  also have "\<dots> = ?u"
    by (rule basic_loop_stop)
       (use assms in \<open>auto simp: basic_iteration_def basic_start_def sleep_one_second_nonzero\<close>)
  finally show ?thesis
    using assms
    by (auto simp: basic_iteration_def basic_start_def sleep_one_second_nonzero)
qed

lemma count_sleeps_basic_ticks:
  "a \<le> b \<Longrightarrow> length (filter (\<lambda>ev. ev = SleepCall) (basic_ticks cfg a b)) = nat (b - a)"
proof (induction "nat (b - a)" arbitrary: a)
  case 0
  then have "a = b" by simp
  then show ?case by simp
next
  case (Suc n)
  then have "a < b" by linarith
  moreover have "length (filter (\<lambda>ev. ev = SleepCall) (basic_ticks cfg (a + 1) b))
      = nat (b - (a + 1))"
    by (rule Suc.hyps(1)) (use Suc \<open>a < b\<close> in simp_all)
  ultimately show ?case
    by (simp add: basic_ticks_step)
qed

text \<open>The same for the bar variants, where all three reads of an iteration count.\<close>

lemma bar_ticks_empty [simp]: "bar_ticks cfg a a = []"
  by (simp add: bar_ticks_def)

lemma bar_ticks_step:
  "a < b \<Longrightarrow> bar_ticks cfg a b = render cfg a @ [SleepCall] @ bar_ticks cfg (a + 1) b"
  by (simp add: bar_ticks_def upto_rec1)

lemma bar_loop_stop: "status s \<noteq> Running \<Longrightarrow> bar_loop cfg env s = s"
  by (subst bar_loop.simps) simp

lemma bar_loop_unfold:
  "status s = Running \<Longrightarrow>
   bar_loop cfg env s = bar_loop cfg env (bar_iteration cfg (env (elapsed s)) s)"
  by (subst bar_loop.simps) simp

lemma bar_loop_advance:
  assumes "status s = Running" "elapsed s \<le> j" "j \<le> total' cfg"
    and "\<forall>e\<in>{elapsed s..<j}. flag_clear (env e)"
  shows "bar_loop cfg env s =
         bar_loop cfg env (s\<lparr>elapsed := j, trace := trace s @ bar_ticks cfg (elapsed s) j\<rparr>)"
  using assms
proof (induction "nat (j - elapsed s)" arbitrary: s)
  case 0
  then have "elapsed s = j" by simp
  then have "s\<lparr>elapsed := j, trace := trace s @ bar_ticks cfg (elapsed s) j\<rparr> = s"
    by (cases s) simp
  then show ?case by simp
next
  case (Suc n)
  then have lt: "elapsed s < j" by linarith
  let ?s' = "bar_iteration cfg (env (elapsed s)) s"
  from Suc.prems lt have clear: "flag_clear (env (elapsed s))"
    by auto
  have s': "?s' = s\<lparr>elapsed := elapsed s + 1,
      trace := trace s @ render cfg (elapsed s) @ [SleepCall]\<rparr>"
    using lt Suc.prems(3) clear
    by (simp add: bar_iteration_def Let_def sleep_one_second_nonzero flag_clear_def)
  have "bar_loop cfg env s = bar_loop cfg env ?s'"
    using Suc.prems(1) by (rule bar_loop_unfold)
  also have "\<dots> = bar_loop cfg env
      (?s'\<lparr>elapsed := j, trace := trace ?s' @ bar_ticks cfg (elapsed ?s') j\<rparr>)"
  proof (rule Suc.hyps(1))
    show "n = nat (j - elapsed ?s')" using Suc.hyps(2) by (simp add: s')
    show "status ?s' = Running" using Suc.prems(1) by (simp add: s')
    show "elapsed ?s' \<le> j" using lt by (simp add: s')
    show "j \<le> total' cfg" by fact
    show "\<forall>e\<in>{elapsed ?s'..<j}. flag_clear (env e)"
      using Suc.prems(4) by (simp add: s')
  qed
  also have "?s'\<lparr>elapsed := j, trace := trace ?s' @ bar_ticks cfg (elapsed ?s') j\<rparr>
      = s\<lparr>elapsed := j, trace := trace s @ bar_ticks cfg (elapsed s) j\<rparr>"
    using lt by (simp add: s' bar_ticks_step)
  finally show ?case .
qed

lemma bar_loop_clear:
  assumes "0 \<le> total' cfg"
    and "\<forall>e\<in>{0..<total' cfg}. flag_clear (env e)"
  shows "bar_loop cfg env (bar_start cfg) =
         \<lparr>elapsed = total' cfg,
          trace = [StartEta, Sleeping (total' cfg)] @ bar_ticks cfg 0 (total' cfg)
                  @ render cfg (total' cfg),
          status = Finished\<rparr>"
proof -
  let ?s = "bar_start cfg"
  let ?t = "?s\<lparr>elapsed := total' cfg,
               trace := trace ?s @ bar_ticks cfg (elapsed ?s) (total' cfg)\<rparr>"
  let ?u = "bar_iteration cfg (env (elapsed ?t)) ?t"
  have "bar_loop cfg env ?s = bar_loop cfg env ?t"
    by (rule bar_loop_advance) (use assms in \<open>simp_all add: bar_start_def\<close>)
  also have "\<dots> = bar_loop cfg env ?u"
    by (rule bar_loop_unfold) (simp add: bar_start_def)
  also have "\<dots> = ?u"
    by (rule bar_loop_stop) (simp add: bar_iteration_def bar_start_def Let_def)
  finally show ?thesis by (simp add: bar_start_def bar_iteration_def Let_def)
qed

lemma bar_loop_interrupted:
  assumes "0 \<le> j" "j < total' cfg"
    and "\<forall>e\<in>{0..<j}. flag_clear (env e)"
    and "latch_before (env j) \<or> True \<in> set (wakeups (env j)) \<or> latch_after (env j)"
  shows "bar_loop cfg env (bar_start cfg) =
         \<lparr>elapsed = j,
          trace = [StartEta, Sleeping (total' cfg)] @ bar_ticks cfg 0 j @ render cfg j
                  @ (if latch_before (env j) then [] else [SleepCall])
                  @ (if \<not> quiet cfg \<and> \<not> multiline cfg then [Newline] else [])
                  @ [InterruptedMsg j (total' cfg)],
          status = Returned 130\<rparr>"
proof -
  let ?s = "bar_start cfg"
  let ?t = "?s\<lparr>elapsed := j, trace := trace ?s @ bar_ticks cfg (elapsed ?s) j\<rparr>"
  let ?u = "bar_iteration cfg (env (elapsed ?t)) ?t"
  have "bar_loop cfg env ?s = bar_loop cfg env ?t"
    by (rule bar_loop_advance) (use assms in \<open>simp_all add: bar_start_def\<close>)
  also have "\<dots> = bar_loop cfg env ?u"
    by (rule bar_loop_unfold) (simp add: bar_start_def)
  also have "\<dots> = ?u"
    by (rule bar_loop_stop)
       (use assms in \<open>auto simp: bar_iteration_def bar_start_def sleep_one_second_nonzero Let_def\<close>)
  finally show ?thesis
    using assms
    by (auto simp: bar_iteration_def bar_start_def sleep_one_second_nonzero Let_def)
qed

lemma no_sleep_in_render [simp]: "filter (\<lambda>ev. ev = SleepCall) (render cfg e) = []"
  by (simp add: render_def print_bar_def)

lemma count_sleeps_bar_ticks:
  "a \<le> b \<Longrightarrow> length (filter (\<lambda>ev. ev = SleepCall) (bar_ticks cfg a b)) = nat (b - a)"
proof (induction "nat (b - a)" arbitrary: a)
  case 0
  then have "a = b" by simp
  then show ?case by simp
next
  case (Suc n)
  then have "a < b" by linarith
  moreover have "length (filter (\<lambda>ev. ev = SleepCall) (bar_ticks cfg (a + 1) b))
      = nat (b - (a + 1))"
    by (rule Suc.hyps(1)) (use Suc \<open>a < b\<close> in simp_all)
  ultimately show ?case
    by (simp add: bar_ticks_step)
qed

subsection \<open>Accepted durations are not negative\<close>

lemma basic_args_nonneg: "basic_args args = Inr cfg \<Longrightarrow> 0 \<le> total' cfg"
  by (auto simp: basic_args_def rejected_def Let_def split: if_splits)

lemma bar_scan_total:
  "bar_scan args cfg errno = Inr cfg' \<Longrightarrow> total' cfg = - 1 \<or> 0 \<le> total' cfg \<Longrightarrow>
   total' cfg' = - 1 \<or> 0 \<le> total' cfg'"
proof (induction args arbitrary: cfg errno)
  case Nil
  then show ?case by simp
next
  case (Cons a rest)
  then show ?case
    by (auto simp: rejected_def Let_def split: if_splits)
qed

lemma bar_args_nonneg: "bar_args args = Inr cfg \<Longrightarrow> 0 \<le> total' cfg"
proof -
  assume a: "bar_args args = Inr cfg"
  then obtain c
    where c: "bar_scan args \<lparr>multiline = False, total' = - 1, quiet = False\<rparr> 0 = Inr c"
    by (auto simp: bar_args_def split: if_splits sum.splits)
  with a have "c = cfg" "total' c \<noteq> - 1"
    by (auto simp: bar_args_def split: if_splits)
  moreover from bar_scan_total [OF c] have "total' c = - 1 \<or> 0 \<le> total' c" by simp
  ultimately show ?thesis by auto
qed

lemma duration_nonneg: "duration v args = Some D \<Longrightarrow> 0 \<le> D"
  by (cases v) (auto simp: duration_def basic_args_nonneg bar_args_nonneg split: sum.splits)

subsection \<open>Runs without an interrupt\<close>

lemma basic_countdown_clear:
  assumes "0 \<le> total' cfg" and "\<forall>e\<in>{0..<total' cfg}. flag_clear (env e)"
  shows "basic_countdown cfg env =
     \<lparr>exit_code = 0,
      events = [Sleeping (total' cfg)] @ basic_ticks cfg 0 (total' cfg)
               @ (if \<not> multiline cfg then [Newline] else []) @ [DoneMsg (total' cfg)],
      last_elapsed = Some (total' cfg)\<rparr>"
proof -
  from assms(2)
  have "\<forall>e\<in>{0..<total' cfg}. \<not> latch_before (env e) \<and> True \<notin> set (wakeups (env e))"
    by (simp add: flag_clear_def)
  from basic_loop_clear [OF assms(1) this] show ?thesis
    by (simp add: basic_countdown_def)
qed

lemma bar_countdown_clear:
  assumes "0 \<le> total' cfg" and "\<forall>e\<in>{0..<total' cfg}. flag_clear (env e)"
  shows "bar_countdown cfg env =
     \<lparr>exit_code = 0,
      events = [StartEta, Sleeping (total' cfg)] @ bar_ticks cfg 0 (total' cfg)
               @ render cfg (total' cfg)
               @ (if \<not> quiet cfg \<and> \<not> multiline cfg then [Newline] else [])
               @ [DoneMsg (total' cfg)],
      last_elapsed = Some (total' cfg)\<rparr>"
  using bar_loop_clear [OF assms] by (simp add: bar_countdown_def)

text \<open>
  Claim C1. For every duration \<open>D \<ge> 0\<close> that the command line gives validly, in any
  variant, a run in which no read of the interrupt flag up to the last second finds it
  set calls \<^verbatim>\<open>sleep_one_second\<close> exactly \<open>D\<close> times, ends with \<^verbatim>\<open>elapsed = D\<close>, writes
  the final summary as its last output, and exits with code 0.
\<close>

theorem uninterrupted_run:
  assumes "duration v args = Some D" and "\<forall>e\<in>{0..<D}. flag_clear (env e)"
  shows "0 \<le> D \<and> sleep_calls (run v args env) = nat D
       \<and> last_elapsed (run v args env) = Some D
       \<and> last (events (run v args env)) = DoneMsg D
       \<and> exit_code (run v args env) = 0"
proof (cases v)
  case Basic
  with assms(1) obtain cfg where cfg: "basic_args args = Inr cfg" "total' cfg = D"
    by (auto simp: duration_def split: sum.splits)
  then have D: "0 \<le> D" using basic_args_nonneg by blast
  have "run v args env = basic_countdown cfg env"
    using Basic cfg by (simp add: run_def basic_main_def)
  also note basic_countdown_clear [of cfg env]
  finally show ?thesis
    using D assms(2) cfg(2) by (simp add: sleep_calls_def count_sleeps_basic_ticks)
next
  case BarCapable
  with assms(1) obtain cfg where cfg: "bar_args args = Inr cfg" "total' cfg = D"
    by (auto simp: duration_def split: sum.splits)
  then have D: "0 \<le> D" using bar_args_nonneg by blast
  have "run v args env = bar_countdown cfg env"
    using BarCapable cfg by (simp add: run_def bar_main_def)
  also note bar_countdown_clear [of cfg env]
  finally show ?thesis
    using D assms(2) cfg(2) by (simp add: sleep_calls_def count_sleeps_bar_ticks)
qed

theorem uninterrupted_run_witness:
  "duration Basic [''3''] = Some 3 \<and> duration BarCapable [''-q'', ''3''] = Some 3
   \<and> sleep_calls (run Basic [''3''] never_interrupted) = 3
   \<and> sleep_calls (run BarCapable [''-q'', ''3''] never_interrupted) = 3
   \<and> last_elapsed (run Basic [''3''] never_interrupted) = Some 3
   \<and> last (events (run BarCapable [''-q'', ''3''] never_interrupted)) = DoneMsg 3
   \<and> exit_code (run Basic [''3''] never_interrupted) = 0"
proof -
  have d1: "duration Basic [''3''] = Some 3" by code_simp
  have d2: "duration BarCapable [''-q'', ''3''] = Some 3" by code_simp
  have c: "\<forall>e\<in>{0..<3}. flag_clear (never_interrupted e)"
    by (simp add: never_interrupted_def calm_def flag_clear_def)
  show ?thesis
    using d1 d2 uninterrupted_run [OF d1 c] uninterrupted_run [OF d2 c] by simp
qed

subsection \<open>Interrupted runs\<close>

lemma basic_countdown_interrupted:
  assumes "0 \<le> j" "j < total' cfg"
    and "\<forall>e\<in>{0..<j}. flag_clear (env e)"
    and "basic_sees (env j)"
  shows "basic_countdown cfg env =
     \<lparr>exit_code = 130,
      events = [Sleeping (total' cfg)] @ basic_ticks cfg 0 j
               @ (if latch_before (env j) then [] else [SleepCall])
               @ (if \<not> multiline cfg then [Newline] else [])
               @ [InterruptedMsg j (total' cfg)],
      last_elapsed = Some j\<rparr>"
proof -
  from assms(3)
  have "\<forall>e\<in>{0..<j}. \<not> latch_before (env e) \<and> True \<notin> set (wakeups (env e))"
    by (simp add: flag_clear_def)
  moreover from assms(4) have "latch_before (env j) \<or> True \<in> set (wakeups (env j))"
    by (simp add: basic_sees_def sleep_one_second_nonzero)
  ultimately show ?thesis
    using basic_loop_interrupted [OF assms(1,2), of env]
    by (simp add: basic_countdown_def)
qed

lemma bar_countdown_interrupted:
  assumes "0 \<le> j" "j < total' cfg"
    and "\<forall>e\<in>{0..<j}. flag_clear (env e)"
    and "bar_sees (env j)"
  shows "bar_countdown cfg env =
     \<lparr>exit_code = 130,
      events = [StartEta, Sleeping (total' cfg)] @ bar_ticks cfg 0 j @ render cfg j
               @ (if latch_before (env j) then [] else [SleepCall])
               @ (if \<not> quiet cfg \<and> \<not> multiline cfg then [Newline] else [])
               @ [InterruptedMsg j (total' cfg)],
      last_elapsed = Some j\<rparr>"
proof -
  from assms(4)
  have "latch_before (env j) \<or> True \<in> set (wakeups (env j)) \<or> latch_after (env j)"
    by (simp add: bar_sees_def sleep_one_second_nonzero)
  from bar_loop_interrupted [OF assms(1,2,3) this] show ?thesis
    by (simp add: bar_countdown_def)
qed

text \<open>
  Claim C2, as amended. For every accepted duration \<open>D \<ge> 1\<close> and every \<open>k\<close> with
  \<open>1 \<le> k \<le> D\<close>: if no read finds the flag set during the first \<open>k - 1\<close> seconds and
  a read that the variant makes during second \<open>k\<close> finds it set (before the sleep or at
  an early wake-up of the sleep in every variant, after the sleep as well in the bar
  variants), the run writes the interrupt message with \<open>k - 1\<close> out of \<open>D\<close> to standard
  error as its last output, ends with \<^verbatim>\<open>elapsed = k - 1\<close> and exits with code 130.
\<close>

theorem interrupt_seen:
  assumes "duration v args = Some D" and "1 \<le> k" and "k \<le> D"
    and "\<forall>e\<in>{0..<k - 1}. flag_clear (env e)"
    and "sees v (env (k - 1))"
  shows "exit_code (run v args env) = 130
       \<and> last (events (run v args env)) = InterruptedMsg (k - 1) D
       \<and> on_stderr (last (events (run v args env)))
       \<and> last_elapsed (run v args env) = Some (k - 1)"
proof (cases v)
  case Basic
  with assms(1) obtain cfg where cfg: "basic_args args = Inr cfg" "total' cfg = D"
    by (auto simp: duration_def split: sum.splits)
  have "run v args env = basic_countdown cfg env"
    using Basic cfg by (simp add: run_def basic_main_def)
  also have "\<dots> = \<lparr>exit_code = 130,
      events = [Sleeping (total' cfg)] @ basic_ticks cfg 0 (k - 1)
               @ (if latch_before (env (k - 1)) then [] else [SleepCall])
               @ (if \<not> multiline cfg then [Newline] else [])
               @ [InterruptedMsg (k - 1) (total' cfg)],
      last_elapsed = Some (k - 1)\<rparr>"
    by (rule basic_countdown_interrupted) (use assms Basic cfg in \<open>simp_all add: sees_def\<close>)
  finally show ?thesis
    using cfg(2) by simp
next
  case BarCapable
  with assms(1) obtain cfg where cfg: "bar_args args = Inr cfg" "total' cfg = D"
    by (auto simp: duration_def split: sum.splits)
  have "run v args env = bar_countdown cfg env"
    using BarCapable cfg by (simp add: run_def bar_main_def)
  also have "\<dots> = \<lparr>exit_code = 130,
      events = [StartEta, Sleeping (total' cfg)] @ bar_ticks cfg 0 (k - 1) @ render cfg (k - 1)
               @ (if latch_before (env (k - 1)) then [] else [SleepCall])
               @ (if \<not> quiet cfg \<and> \<not> multiline cfg then [Newline] else [])
               @ [InterruptedMsg (k - 1) (total' cfg)],
      last_elapsed = Some (k - 1)\<rparr>"
    by (rule bar_countdown_interrupted)
       (use assms BarCapable cfg in \<open>simp_all add: sees_def\<close>)
  finally show ?thesis
    using cfg(2) by simp
qed

theorem interrupt_seen_witness:
  "duration BarCapable [''3''] = Some 3
   \<and> sees BarCapable (late_signal 1 (2 - 1))
   \<and> exit_code (run BarCapable [''3''] (late_signal 1)) = 130
   \<and> last (events (run BarCapable [''3''] (late_signal 1))) = InterruptedMsg 1 3
   \<and> last_elapsed (run BarCapable [''3''] (late_signal 1)) = Some 1"
proof -
  have d: "duration BarCapable [''3''] = Some 3" by code_simp
  have c: "\<forall>e\<in>{0..<2 - 1}. flag_clear (late_signal 1 e)"
    by (simp add: late_signal_def calm_def flag_clear_def)
  have s: "sees BarCapable (late_signal 1 (2 - 1))"
    by (simp add: sees_def bar_sees_def late_signal_def)
  show ?thesis
    using d s interrupt_seen [OF d _ _ c s] by simp
qed

text \<open>
  The claim as stated fails in the basic variant: there the flag is not read after the
  sleep, so a flag that is set while a sleep runs to its end (always so under Windows,
  where \<^verbatim>\<open>Sleep(1000)\<close> is not cut short) is found one second later, and the run reports
  \<open>k\<close>, or it is not found at all when that second was the last.
\<close>

theorem interrupt_missed_counterexample:
  "duration Basic [''1''] = Some 1
   \<and> latch_after (late_signal 0 (1 - 1))
   \<and> exit_code (run Basic [''1''] (late_signal 0)) = 0
   \<and> last (events (run Basic [''1''] (late_signal 0))) = DoneMsg 1
   \<and> duration Basic [''2''] = Some 2
   \<and> exit_code (run Basic [''2''] (late_signal 0)) = 130
   \<and> last (events (run Basic [''2''] (late_signal 0))) = InterruptedMsg 1 2"
  by code_simp

subsection \<open>The states of the loop\<close>

lemma basic_after_bounds:
  assumes "0 \<le> total' cfg"
  shows "0 \<le> elapsed (basic_after cfg env n) \<and> elapsed (basic_after cfg env n) \<le> total' cfg"
proof (induction n)
  case 0
  then show ?case using assms by (simp add: basic_start_def)
next
  case (Suc n)
  then show ?case
    by (auto simp: basic_iteration_def Let_def)
qed

lemma basic_after_running:
  "status (basic_after cfg env n) = Running \<Longrightarrow> elapsed (basic_after cfg env n) = int n"
proof (induction n)
  case 0
  then show ?case by (simp add: basic_start_def)
next
  case (Suc n)
  then show ?case
    by (auto simp: basic_iteration_def Let_def split: if_splits)
qed

lemma basic_loop_after:
  "basic_loop cfg env (basic_after cfg env n) = basic_loop cfg env (basic_start cfg)"
proof (induction n)
  case 0
  then show ?case by simp
next
  case (Suc n)
  then show ?case
    by (cases "status (basic_after cfg env n) = Running") (simp_all add: basic_loop_unfold Let_def)
qed

lemma basic_after_stops:
  assumes "0 \<le> total' cfg"
  shows "status (basic_after cfg env (Suc (nat (total' cfg)))) \<noteq> Running"
proof
  let ?n = "Suc (nat (total' cfg))"
  assume "status (basic_after cfg env ?n) = Running"
  then have "elapsed (basic_after cfg env ?n) = int ?n" by (rule basic_after_running)
  moreover have "elapsed (basic_after cfg env ?n) \<le> total' cfg"
    using basic_after_bounds [OF assms] by blast
  ultimately show False using assms by simp
qed

lemma basic_exit_iff:
  assumes "status s = Running" "elapsed s \<le> total' cfg"
  shows "(status (basic_iteration cfg t s) \<noteq> Running) = (elapsed s = total' cfg \<or> basic_sees t)"
  using assms by (auto simp: basic_iteration_def basic_sees_def Let_def)

lemma bar_after_bounds:
  assumes "0 \<le> total' cfg"
  shows "0 \<le> elapsed (bar_after cfg env n) \<and> elapsed (bar_after cfg env n) \<le> total' cfg"
proof (induction n)
  case 0
  then show ?case using assms by (simp add: bar_start_def)
next
  case (Suc n)
  then show ?case
    by (auto simp: bar_iteration_def Let_def)
qed

lemma bar_after_running:
  "status (bar_after cfg env n) = Running \<Longrightarrow> elapsed (bar_after cfg env n) = int n"
proof (induction n)
  case 0
  then show ?case by (simp add: bar_start_def)
next
  case (Suc n)
  then show ?case
    by (auto simp: bar_iteration_def Let_def split: if_splits)
qed

lemma bar_loop_after:
  "bar_loop cfg env (bar_after cfg env n) = bar_loop cfg env (bar_start cfg)"
proof (induction n)
  case 0
  then show ?case by simp
next
  case (Suc n)
  then show ?case
    by (cases "status (bar_after cfg env n) = Running") (simp_all add: bar_loop_unfold Let_def)
qed

lemma bar_after_stops:
  assumes "0 \<le> total' cfg"
  shows "status (bar_after cfg env (Suc (nat (total' cfg)))) \<noteq> Running"
proof
  let ?n = "Suc (nat (total' cfg))"
  assume "status (bar_after cfg env ?n) = Running"
  then have "elapsed (bar_after cfg env ?n) = int ?n" by (rule bar_after_running)
  moreover have "elapsed (bar_after cfg env ?n) \<le> total' cfg"
    using bar_after_bounds [OF assms] by blast
  ultimately show False using assms by simp
qed

lemma bar_exit_iff:
  assumes "status s = Running" "elapsed s \<le> total' cfg"
  shows "(status (bar_iteration cfg t s) \<noteq> Running) = (elapsed s = total' cfg \<or> bar_sees t)"
  using assms by (auto simp: bar_iteration_def bar_sees_def Let_def)

text \<open>
  Claim C3. In every reachable state of the countdown loop \<open>0 \<le> elapsed \<le> total\<close>;
  a running loop is left in an iteration exactly when \<^verbatim>\<open>elapsed\<close> has reached the duration
  or a read of the interrupt flag finds it set; and the loop always ends, at the latest
  with the evaluation of its condition number \<open>total + 1\<close>. Both for the basic and for
  the bar variants, for a duration that is not negative (as every accepted one is).
\<close>

theorem countdown_invariant:
  assumes "0 \<le> total' cfg" and "0 \<le> total' bcfg"
  shows "(0 \<le> elapsed (basic_after cfg env n) \<and> elapsed (basic_after cfg env n) \<le> total' cfg
      \<and> (status (basic_after cfg env n) = Running \<longrightarrow>
           (status (basic_after cfg env (Suc n)) \<noteq> Running)
           = (elapsed (basic_after cfg env n) = total' cfg
              \<or> basic_sees (env (elapsed (basic_after cfg env n)))))
      \<and> basic_loop cfg env (basic_start cfg) = basic_after cfg env (Suc (nat (total' cfg)))
      \<and> status (basic_loop cfg env (basic_start cfg)) \<noteq> Running)
    \<and> (0 \<le> elapsed (bar_after bcfg env n) \<and> elapsed (bar_after bcfg env n) \<le> total' bcfg
      \<and> (status (bar_after bcfg env n) = Running \<longrightarrow>
           (status (bar_after bcfg env (Suc n)) \<noteq> Running)
           = (elapsed (bar_after bcfg env n) = total' bcfg
              \<or> bar_sees (env (elapsed (bar_after bcfg env n)))))
      \<and> bar_loop bcfg env (bar_start bcfg) = bar_after bcfg env (Suc (nat (total' bcfg)))
      \<and> status (bar_loop bcfg env (bar_start bcfg)) \<noteq> Running)"
proof -
  have b1: "0 \<le> elapsed (basic_after cfg env n) \<and> elapsed (basic_after cfg env n) \<le> total' cfg"
    by (rule basic_after_bounds [OF assms(1)])
  have b2: "status (basic_after cfg env n) = Running \<longrightarrow>
           (status (basic_after cfg env (Suc n)) \<noteq> Running)
           = (elapsed (basic_after cfg env n) = total' cfg
              \<or> basic_sees (env (elapsed (basic_after cfg env n))))"
    using b1 basic_exit_iff [of "basic_after cfg env n" cfg] by (simp add: Let_def)
  have b3: "basic_loop cfg env (basic_start cfg) = basic_after cfg env (Suc (nat (total' cfg)))"
    using basic_loop_after [of cfg env "Suc (nat (total' cfg))"]
      basic_loop_stop [OF basic_after_stops [OF assms(1)], of cfg env] by simp
  have b4: "status (basic_loop cfg env (basic_start cfg)) \<noteq> Running"
    unfolding b3 by (rule basic_after_stops [OF assms(1)])
  have c1: "0 \<le> elapsed (bar_after bcfg env n) \<and> elapsed (bar_after bcfg env n) \<le> total' bcfg"
    by (rule bar_after_bounds [OF assms(2)])
  have c2: "status (bar_after bcfg env n) = Running \<longrightarrow>
           (status (bar_after bcfg env (Suc n)) \<noteq> Running)
           = (elapsed (bar_after bcfg env n) = total' bcfg
              \<or> bar_sees (env (elapsed (bar_after bcfg env n))))"
    using c1 bar_exit_iff [of "bar_after bcfg env n" bcfg] by (simp add: Let_def)
  have c3: "bar_loop bcfg env (bar_start bcfg) = bar_after bcfg env (Suc (nat (total' bcfg)))"
    using bar_loop_after [of bcfg env "Suc (nat (total' bcfg))"]
      bar_loop_stop [OF bar_after_stops [OF assms(2)], of bcfg env] by simp
  have c4: "status (bar_loop bcfg env (bar_start bcfg)) \<noteq> Running"
    unfolding c3 by (rule bar_after_stops [OF assms(2)])
  from b1 b2 b3 b4 c1 c2 c3 c4 show ?thesis by blast
qed


theorem countdown_invariant_witness:
  "0 \<le> total' \<lparr>multiline = False, total' = 2\<rparr>
   \<and> 0 \<le> total' \<lparr>multiline = False, total' = 2, quiet = True\<rparr>
   \<and> elapsed (basic_after \<lparr>multiline = False, total' = 2\<rparr> (late_signal 0) (Suc 0))
       \<le> total' \<lparr>multiline = False, total' = 2\<rparr>
   \<and> status (basic_after \<lparr>multiline = False, total' = 2\<rparr> (late_signal 0) (Suc 0)) = Running
   \<and> status (basic_after \<lparr>multiline = False, total' = 2\<rparr> (late_signal 0) (Suc (Suc 0)))
       \<noteq> Running
   \<and> status (bar_loop \<lparr>multiline = False, total' = 2, quiet = True\<rparr> (late_signal 0)
        (bar_start \<lparr>multiline = False, total' = 2, quiet = True\<rparr>)) \<noteq> Running"
proof -
  have t: "0 \<le> total' \<lparr>multiline = False, total' = 2\<rparr>"
    "0 \<le> total' \<lparr>multiline = False, total' = 2, quiet = True\<rparr>"
    by simp_all
  have r: "status (basic_after \<lparr>multiline = False, total' = 2\<rparr> (late_signal 0) (Suc 0))
      = Running"
    by code_simp
  have s: "basic_sees (late_signal 0
      (elapsed (basic_after \<lparr>multiline = False, total' = 2\<rparr> (late_signal 0) (Suc 0))))"
    by code_simp
  from t r s countdown_invariant [OF t, of "late_signal 0" "Suc 0"]
  show ?thesis by blast
qed

subsection \<open>Duration zero\<close>

lemma print_bar_full: "print_bar 0 0 = Bar (replicate 20 Filled) 100"
  by code_simp


lemma render_zero:
  "total' cfg = 0 \<Longrightarrow> render cfg 0 =
     (if \<not> quiet cfg then
        [Progress (\<not> multiline cfg) 0 0, Bar (replicate 20 Filled) 100,
         if multiline cfg then Newline else Padding]
      else [])"
  by (simp add: render_def print_bar_full)

text \<open>
  Claim C7. For duration 0, in any variant and whatever the interrupt flag does, the
  run never calls \<^verbatim>\<open>sleep_one_second\<close>, writes the summary and exits with code 0. Every
  bar it writes has all 20 cells filled and shows 100 percent, and a bar variant that
  is not quiet writes such a bar.
\<close>

theorem zero_duration:
  assumes "duration v args = Some 0"
  shows "sleep_calls (run v args env) = 0
       \<and> exit_code (run v args env) = 0
       \<and> last (events (run v args env)) = DoneMsg 0
       \<and> (\<forall>cells pct. Bar cells pct \<in> set (events (run v args env)) \<longrightarrow>
             cells = replicate 20 Filled \<and> pct = 100)
       \<and> (\<forall>cfg. v = BarCapable \<and> bar_args args = Inr cfg \<and> \<not> quiet cfg \<longrightarrow>
             Bar (replicate 20 Filled) 100 \<in> set (events (run v args env)))"
proof (cases v)
  case Basic
  with assms(1) obtain cfg where cfg: "basic_args args = Inr cfg" "total' cfg = 0"
    by (auto simp: duration_def split: sum.splits)
  have "run v args env = basic_countdown cfg env"
    using Basic cfg by (simp add: run_def basic_main_def)
  also note basic_countdown_clear [of cfg env]
  finally show ?thesis
    using cfg(2) Basic by (simp add: sleep_calls_def)
next
  case BarCapable
  with assms(1) obtain cfg where cfg: "bar_args args = Inr cfg" "total' cfg = 0"
    by (auto simp: duration_def split: sum.splits)
  have "run v args env = bar_countdown cfg env"
    using BarCapable cfg by (simp add: run_def bar_main_def)
  also note bar_countdown_clear [of cfg env]
  finally show ?thesis
    using cfg BarCapable by (auto simp: sleep_calls_def render_zero)
qed

theorem zero_duration_witness:
  "duration BarCapable [''0''] = Some 0
   \<and> sleep_calls (run BarCapable [''0''] (late_signal 0)) = 0
   \<and> exit_code (run BarCapable [''0''] (late_signal 0)) = 0
   \<and> Bar (replicate 20 Filled) 100 \<in> set (events (run BarCapable [''0''] (late_signal 0)))"
proof -
  have d: "duration BarCapable [''0''] = Some 0" by code_simp
  have a: "bar_args [''0''] = Inr \<lparr>multiline = False, total' = 0, quiet = False\<rparr>"
    by code_simp
  from d a zero_duration [OF d, of "late_signal 0"] show ?thesis by simp
qed

subsection \<open>How many progress lines\<close>

lemma lines_basic_ticks:
  "a \<le> b \<Longrightarrow> concat (map progress_elapsed (basic_ticks cfg a b)) = [a + 1..b]"
proof (induction "nat (b - a)" arbitrary: a)
  case 0
  then have "a = b" by simp
  then show ?case by simp
next
  case (Suc n)
  then have lt: "a < b" by linarith
  have "concat (map progress_elapsed (basic_ticks cfg (a + 1) b)) = [a + 1 + 1..b]"
    by (rule Suc.hyps(1)) (use Suc lt in simp_all)
  moreover have "[a + 1..b] = (a + 1) # [a + 1 + 1..b]"
    using lt by (simp add: upto_rec1)
  ultimately show ?case
    using lt by (simp add: basic_ticks_step)
qed

lemma lines_render:
  "concat (map progress_elapsed (render cfg e)) = (if quiet cfg then [] else [e])"
  by (simp add: render_def print_bar_def)

lemma lines_bar_ticks:
  "a \<le> b \<Longrightarrow> concat (map progress_elapsed (bar_ticks cfg a b)) =
     (if quiet cfg then [] else [a..b - 1])"
proof (induction "nat (b - a)" arbitrary: a)
  case 0
  then have "a = b" by simp
  then show ?case by simp
next
  case (Suc n)
  then have lt: "a < b" by linarith
  have "concat (map progress_elapsed (bar_ticks cfg (a + 1) b)) =
     (if quiet cfg then [] else [a + 1..b - 1])"
    by (rule Suc.hyps(1)) (use Suc lt in simp_all)
  moreover have "[a..b - 1] = a # [a + 1..b - 1]"
    using lt by (simp add: upto_rec1)
  ultimately show ?case
    using lt by (simp add: bar_ticks_step lines_render)
qed

lemma upto_snoc: "(a::int) \<le> b \<Longrightarrow> [a..b - 1] @ [b] = [a..b]"
  by (simp add: upto_rec2)

lemma before_sleep_basic_ticks:
  "takeWhile (\<lambda>ev. ev \<noteq> SleepCall) (basic_ticks cfg a b @ rest) =
     (if a < b then [] else takeWhile (\<lambda>ev. ev \<noteq> SleepCall) rest)"
  by (simp add: basic_ticks_step) (simp add: basic_ticks_def)

lemma before_sleep_render:
  "takeWhile (\<lambda>ev. ev \<noteq> SleepCall) (render cfg e @ rest) =
     render cfg e @ takeWhile (\<lambda>ev. ev \<noteq> SleepCall) rest"
  by (simp add: render_def print_bar_def)

lemma before_sleep_bar_ticks:
  "takeWhile (\<lambda>ev. ev \<noteq> SleepCall) (bar_ticks cfg a b @ rest) =
     (if a < b then render cfg a else takeWhile (\<lambda>ev. ev \<noteq> SleepCall) rest)"
proof (cases "a < b")
  case True
  then show ?thesis
    using before_sleep_render [of cfg a "SleepCall # bar_ticks cfg (a + 1) b @ rest"]
    by (simp add: bar_ticks_step)
next
  case False
  then show ?thesis by (simp add: bar_ticks_def)
qed

text \<open>
  Claim C9. In an uninterrupted run of duration \<open>D\<close>, a bar variant that is not quiet
  writes \<open>D + 1\<close> progress lines, for \<^verbatim>\<open>elapsed\<close> from 0 to \<open>D\<close>, the one for 0 before the
  first sleep; the basic variant writes \<open>D\<close> lines, for \<^verbatim>\<open>elapsed\<close> from 1 to \<open>D\<close>, none
  of them before the first sleep.
\<close>

theorem progress_line_count:
  assumes "\<forall>e\<in>{0..<D}. flag_clear (env e)"
  shows "(bar_args args = Inr cfg \<and> total' cfg = D \<and> \<not> quiet cfg \<longrightarrow>
            progress_lines (run BarCapable args env) = [0..D]
          \<and> length (progress_lines (run BarCapable args env)) = nat D + 1
          \<and> progress_before_sleep (run BarCapable args env) = [0])
       \<and> (duration Basic args' = Some D \<longrightarrow>
            progress_lines (run Basic args' env) = [1..D]
          \<and> length (progress_lines (run Basic args' env)) = nat D
          \<and> progress_before_sleep (run Basic args' env) = [])"
proof (intro conjI impI)
  assume a: "bar_args args = Inr cfg \<and> total' cfg = D \<and> \<not> quiet cfg"
  then have D: "0 \<le> D" using bar_args_nonneg by blast
  have "run BarCapable args env = bar_countdown cfg env"
    using a by (simp add: run_def bar_main_def)
  also note bar_countdown_clear [of cfg env]
  finally have r: "run BarCapable args env = \<lparr>exit_code = 0,
      events = [StartEta, Sleeping D] @ bar_ticks cfg 0 D @ render cfg D
               @ (if \<not> quiet cfg \<and> \<not> multiline cfg then [Newline] else []) @ [DoneMsg D],
      last_elapsed = Some D\<rparr>"
    using a D assms by simp
  show l: "progress_lines (run BarCapable args env) = [0..D]"
    using a D by (simp add: r progress_lines_def lines_bar_ticks lines_render upto_snoc)
  show "length (progress_lines (run BarCapable args env)) = nat D + 1"
    using D by (simp add: l)
  show "progress_before_sleep (run BarCapable args env) = [0]"
    using a D
    by (simp add: r progress_before_sleep_def before_sleep_bar_ticks before_sleep_render
        lines_render)
next
  assume a: "duration Basic args' = Some D"
  then obtain bcfg where cfg: "basic_args args' = Inr bcfg" "total' bcfg = D"
    by (auto simp: duration_def split: sum.splits)
  then have D: "0 \<le> D" using basic_args_nonneg by blast
  have "run Basic args' env = basic_countdown bcfg env"
    using cfg by (simp add: run_def basic_main_def)
  also note basic_countdown_clear [of bcfg env]
  finally have r: "run Basic args' env = \<lparr>exit_code = 0,
      events = [Sleeping D] @ basic_ticks bcfg 0 D
               @ (if \<not> multiline bcfg then [Newline] else []) @ [DoneMsg D],
      last_elapsed = Some D\<rparr>"
    using cfg D assms by simp
  show l: "progress_lines (run Basic args' env) = [1..D]"
    using D by (simp add: r progress_lines_def lines_basic_ticks)
  show "length (progress_lines (run Basic args' env)) = nat D"
    using D by (simp add: l)
  show "progress_before_sleep (run Basic args' env) = []"
    by (simp add: r progress_before_sleep_def before_sleep_basic_ticks)
qed

theorem progress_line_count_witness:
  "bar_args [''2''] = Inr \<lparr>multiline = False, total' = 2, quiet = False\<rparr>
   \<and> duration Basic [''2''] = Some 2
   \<and> progress_lines (run BarCapable [''2''] never_interrupted) = [0, 1, 2]
   \<and> progress_before_sleep (run BarCapable [''2''] never_interrupted) = [0]
   \<and> progress_lines (run Basic [''2''] never_interrupted) = [1, 2]
   \<and> progress_before_sleep (run Basic [''2''] never_interrupted) = []"
proof -
  have a: "bar_args [''2''] = Inr \<lparr>multiline = False, total' = 2, quiet = False\<rparr>"
    by code_simp
  have d: "duration Basic [''2''] = Some 2" by code_simp
  have c: "\<forall>e\<in>{0..<2}. flag_clear (never_interrupted e)"
    by (simp add: never_interrupted_def calm_def flag_clear_def)
  have u: "[0..2::int] = [0, 1, 2]" "[1..2::int] = [1, 2]" by code_simp+
  from a d u
    progress_line_count [OF c, of "[''2'']"
      "\<lparr>multiline = False, total' = 2, quiet = False\<rparr>" "[''2'']"]
  show ?thesis by simp
qed

subsection \<open>What \<^verbatim>\<open>strtol\<close> and the checks reject\<close>

lemma digit_not_space: "isdigit c \<Longrightarrow> \<not> isspace c"
  by (auto simp: isdigit_def isspace_def)

lemma digit_not_sign: "isdigit c \<Longrightarrow> c \<noteq> CHR ''-'' \<and> c \<noteq> CHR ''+''"
  by (auto simp: isdigit_def)

lemma sign_not_space: "\<not> isspace CHR ''-''" "\<not> isspace CHR ''+''"
  by (simp_all add: isspace_def)

lemma digit_value_nonneg: "isdigit c \<Longrightarrow> 0 \<le> digit_value c"
  by (auto simp: isdigit_def digit_value_def)

lemma foldl_decimal_nonneg:
  "\<forall>c\<in>set ds. isdigit c \<Longrightarrow> 0 \<le> acc \<Longrightarrow>
   0 \<le> foldl (\<lambda>acc c. 10 * acc + digit_value c) acc ds"
proof (induction ds arbitrary: acc)
  case Nil
  then show ?case by simp
next
  case (Cons c ds)
  then show ?case
    using digit_value_nonneg [of c] by simp
qed

lemma decimal_nonneg: "list_all isdigit ds \<Longrightarrow> 0 \<le> decimal ds"
  by (simp add: decimal_def foldl_decimal_nonneg list_all_iff)

lemma token_length:
  "length s = length (takeWhile isspace s)
     + (case after_space s of [] \<Rightarrow> 0 | c # cs \<Rightarrow> if c = CHR ''-'' \<or> c = CHR ''+'' then 1 else 0)
     + length (leading_digits s) + length (after_digits s)"
proof -
  have "length (takeWhile isspace s @ dropWhile isspace s) = length s" by simp
  then have a: "length s = length (takeWhile isspace s) + length (after_space s)"
    by (simp add: after_space_def del: takeWhile_dropWhile_id)
  have "length (takeWhile isdigit (after_sign s) @ dropWhile isdigit (after_sign s))
      = length (after_sign s)" by simp
  then have b: "length (after_sign s) = length (leading_digits s) + length (after_digits s)"
    by (simp add: leading_digits_def after_digits_def del: takeWhile_dropWhile_id)
  have c: "length (after_space s) =
      (case after_space s of [] \<Rightarrow> 0 | c # cs \<Rightarrow> if c = CHR ''-'' \<or> c = CHR ''+'' then 1 else 0)
      + length (after_sign s)"
    unfolding after_sign_def by (cases "after_space s") simp_all
  from a b c show ?thesis by simp
qed

lemma strtol_shape:
  "strtol s errno =
     (let ds = leading_digits s;
          v = (if minus_sign s then - decimal ds else decimal ds)
      in if ds = [] then \<lparr>ret = 0, endp = 0, errno' = errno\<rparr>
         else \<lparr>ret = (if LONG_MAX < v then LONG_MAX else if v < LONG_MIN then LONG_MIN else v),
               endp = length s - length (after_digits s),
               errno' = (if LONG_MAX < v \<or> v < LONG_MIN then ERANGE else errno)\<rparr>)"
proof -
  let ?s1 = "dropWhile isspace s"
  let ?signed = "(case ?s1 of [] \<Rightarrow> False | c # cs \<Rightarrow> c = CHR ''-'' \<or> c = CHR ''+'')"
  have "(if (case xs of [] \<Rightarrow> False | c # cs \<Rightarrow> c = CHR ''-'' \<or> c = CHR ''+'') then tl xs else xs)
      = (case xs of [] \<Rightarrow> [] | c # cs \<Rightarrow> if c = CHR ''-'' \<or> c = CHR ''+'' then cs else c # cs)"
    for xs :: string
    by (cases xs) simp_all
  then have s2: "(if ?signed then tl ?s1 else ?s1) = after_sign s"
    by (simp only: after_sign_def after_space_def)
  have neg: "(case ?s1 of [] \<Rightarrow> False | c # cs \<Rightarrow> c = CHR ''-'') = minus_sign s"
    by (simp only: minus_sign_def after_space_def)
  have "(if (case xs of [] \<Rightarrow> False | c # cs \<Rightarrow> c = CHR ''-'' \<or> c = CHR ''+'') then 1 else 0)
      = (case xs of [] \<Rightarrow> 0 | c # cs \<Rightarrow> if c = CHR ''-'' \<or> c = CHR ''+'' then 1 else (0::nat))"
    for xs :: string
    by (cases xs) simp_all
  then have "(if ?signed then 1 else 0) =
      (case after_space s of [] \<Rightarrow> 0 | c # cs \<Rightarrow> if c = CHR ''-'' \<or> c = CHR ''+'' then 1 else (0::nat))"
    by (simp only: after_space_def)
  with token_length [of s]
  have len: "length (takeWhile isspace s) + (if ?signed then 1 else 0) + length (leading_digits s)
      = length s - length (after_digits s)"
    by simp
  show ?thesis
    unfolding strtol_def Let_def s2 neg leading_digits_def [symmetric] len by simp
qed

lemma non_numeric_rejected: "non_numeric s \<Longrightarrow> rejected s (strtol s errno)"
  by (simp add: strtol_shape non_numeric_def rejected_def)

lemma leading_digits_nonneg: "0 \<le> decimal (leading_digits s)"
  by (rule decimal_nonneg) (auto simp: leading_digits_def list_all_iff dest: set_takeWhileD)

lemma rejected_iff_malformed:
  "rejected s (strtol s 0) = (malformed s \<or> too_large s)"
proof (cases "leading_digits s = []")
  case True
  then show ?thesis
    by (simp add: strtol_shape rejected_def malformed_def non_numeric_def)
next
  case False
  define n where "n = decimal (leading_digits s)"
  define v where "v = (if minus_sign s then - n else n)"
  define l where "l = length s - length (after_digits s)"
  have n: "0 \<le> n" using leading_digits_nonneg [of s] by (simp add: n_def)
  have lm: "0 \<le> LONG_MAX" "LONG_MIN < 0" by (simp_all add: LONG_MAX_def LONG_MIN_def)
  have le: "length (after_digits s) \<le> length s" using token_length [of s] by simp
  have pos: "0 < l"
    using token_length [of s] False by (simp add: l_def)
  have "(l < length s) = (0 < length (after_digits s))"
    using le pos unfolding l_def by arith
  then have e: "(l < length s) = (after_digits s \<noteq> [])" by simp
  have "strtol s 0 =
      \<lparr>ret = (if LONG_MAX < v then LONG_MAX else if v < LONG_MIN then LONG_MIN else v),
       endp = l, errno' = (if LONG_MAX < v \<or> v < LONG_MIN then ERANGE else 0)\<rparr>"
    using False by (simp add: strtol_shape Let_def v_def n_def l_def)
  then have r: "rejected s (strtol s 0) =
      (LONG_MAX < v \<or> v < LONG_MIN \<or> after_digits s \<noteq> [] \<or> v < 0)"
    using pos e lm by (auto simp: rejected_def ERANGE_def)
  have m: "malformed s = (after_digits s \<noteq> [] \<or> minus_sign s \<and> 0 < n)"
    using False
    by (auto simp: malformed_def non_numeric_def negative_number_def trailing_garbage_def n_def)
  have t: "too_large s = (LONG_MAX < n)" by (simp add: too_large_def n_def)
  show ?thesis
    unfolding r m t using n lm by (cases "minus_sign s") (auto simp: v_def)
qed

lemma bar_scan_malformed:
  "find (\<lambda>a. \<not> is_flag a) args = Some tok \<Longrightarrow> rejected tok (strtol tok errno) \<Longrightarrow>
   total' cfg = - 1 \<Longrightarrow> bar_scan args cfg errno = Inl ErrNotInteger"
proof (induction args arbitrary: cfg)
  case Nil
  then show ?case by simp
next
  case (Cons a rest)
  then show ?case
    by (auto simp: is_flag_def Let_def split: if_splits)
qed

lemma bar_scan_no_token:
  "find (\<lambda>a. \<not> is_flag a) args = None \<Longrightarrow> total' cfg = - 1 \<Longrightarrow>
   \<exists>cfg'. bar_scan args cfg errno = Inr cfg' \<and> total' cfg' = - 1"
proof (induction args arbitrary: cfg)
  case Nil
  then show ?case by simp
next
  case (Cons a rest)
  then show ?case
    by (auto simp: is_flag_def Let_def split: if_splits)
qed

lemma basic_args_error:
  assumes "case duration_token Basic args of None \<Rightarrow> True
           | Some tok \<Rightarrow> malformed tok \<or> too_large tok"
  shows "basic_args args = Inl Usage \<or> basic_args args = Inl ErrNotInteger"
proof (cases args)
  case Nil
  then show ?thesis by (simp add: basic_args_def)
next
  case (Cons a rest)
  with assms have "malformed a \<or> too_large a" by (simp add: duration_token_def)
  then have "rejected a (strtol a 0)" by (simp only: rejected_iff_malformed)
  then show ?thesis using Cons by (simp add: basic_args_def Let_def)
qed

lemma bar_args_error:
  assumes "case duration_token BarCapable args of None \<Rightarrow> True
           | Some tok \<Rightarrow> malformed tok \<or> too_large tok"
  shows "bar_args args = Inl Usage \<or> bar_args args = Inl ErrNotInteger
       \<or> bar_args args = Inl ErrMissing"
proof (cases "find (\<lambda>a. \<not> is_flag a) args")
  case None
  from bar_scan_no_token [OF None, of "\<lparr>multiline = False, total' = - 1, quiet = False\<rparr>" 0]
  show ?thesis by (auto simp: bar_args_def)
next
  case (Some tok)
  with assms have "malformed tok \<or> too_large tok" by (simp add: duration_token_def)
  then have "rejected tok (strtol tok 0)" by (simp only: rejected_iff_malformed)
  from bar_scan_malformed [OF Some this, of "\<lparr>multiline = False, total' = - 1, quiet = False\<rparr>"]
  show ?thesis by (auto simp: bar_args_def)
qed

text \<open>
  Claim C6. When the duration argument is malformed or missing, in any variant, the run
  writes one message, to standard error, and exits with code 1; it never enters the
  loop: no sleep, no progress line, and \<^verbatim>\<open>elapsed\<close> is never declared. Malformed is every
  token that is not numeric, is negative, or has trailing garbage, wherever in the token
  the fault lies (\<^verbatim>\<open>abc\<close>, \<^verbatim>\<open>x5\<close>, \<^verbatim>\<open>.5\<close>, \<^verbatim>\<open>-5\<close>, \<^verbatim>\<open>-3.5\<close>, \<^verbatim>\<open>3.5\<close>, \<^verbatim>\<open>+3.5\<close>, \<^verbatim>\<open>5x\<close>). The
  same holds for a number too large for \<^verbatim>\<open>long\<close>; by \<open>rejected_iff_malformed\<close> these are
  all the tokens the checks reject.
\<close>

theorem malformed_duration:
  assumes "case duration_token v args of None \<Rightarrow> True
           | Some tok \<Rightarrow> malformed tok \<or> too_large tok"
  shows "exit_code (run v args env) = 1
       \<and> events (run v args env) \<noteq> []
       \<and> list_all on_stderr (events (run v args env))
       \<and> sleep_calls (run v args env) = 0
       \<and> progress_lines (run v args env) = []
       \<and> last_elapsed (run v args env) = None"
proof (cases v)
  case Basic
  with assms basic_args_error [of args]
  have "run v args env = usage_error Usage \<or> run v args env = usage_error ErrNotInteger"
    by (auto simp: run_def basic_main_def)
  then show ?thesis
    by (auto simp: usage_error_def sleep_calls_def progress_lines_def)
next
  case BarCapable
  with assms bar_args_error [of args]
  have "run v args env = usage_error Usage \<or> run v args env = usage_error ErrNotInteger
      \<or> run v args env = usage_error ErrMissing"
    by (auto simp: run_def bar_main_def)
  then show ?thesis
    by (auto simp: usage_error_def sleep_calls_def progress_lines_def)
qed

theorem malformed_duration_witness:
  "duration_token Basic [''abc''] = Some ''abc''
   \<and> malformed ''abc''
   \<and> duration_token BarCapable [''-q'', ''-5'', ''7''] = Some ''-5''
   \<and> malformed ''-5''
   \<and> duration_token Basic [''3.5'', ''--multiline''] = Some ''3.5''
   \<and> malformed ''3.5''
   \<and> duration_token BarCapable [''--quiet''] = None
   \<and> duration_token Basic [''x5''] = Some ''x5''
   \<and> malformed ''x5''
   \<and> duration_token BarCapable ['' -5''] = Some '' -5''
   \<and> malformed '' -5''
   \<and> duration_token Basic [''-3.5''] = Some ''-3.5''
   \<and> malformed ''-3.5''
   \<and> duration_token BarCapable [''+3.5'', ''-q''] = Some ''+3.5''
   \<and> malformed ''+3.5''
   \<and> duration_token Basic [''.5''] = Some ''.5''
   \<and> malformed ''.5''
   \<and> duration_token BarCapable [''-5x''] = Some ''-5x''
   \<and> malformed ''-5x''
   \<and> duration_token Basic [''9223372036854775808''] = Some ''9223372036854775808''
   \<and> too_large ''9223372036854775808''
   \<and> exit_code (run Basic [''abc''] never_interrupted) = 1
   \<and> exit_code (run BarCapable [''-q'', ''-5'', ''7''] never_interrupted) = 1
   \<and> exit_code (run Basic [''3.5'', ''--multiline''] never_interrupted) = 1
   \<and> exit_code (run BarCapable [''--quiet''] never_interrupted) = 1
   \<and> exit_code (run Basic [''x5''] never_interrupted) = 1
   \<and> exit_code (run BarCapable ['' -5''] never_interrupted) = 1
   \<and> exit_code (run Basic [''-3.5''] never_interrupted) = 1
   \<and> exit_code (run BarCapable [''+3.5'', ''-q''] never_interrupted) = 1
   \<and> exit_code (run Basic [''.5''] never_interrupted) = 1
   \<and> exit_code (run BarCapable [''-5x''] never_interrupted) = 1
   \<and> exit_code (run Basic [''9223372036854775808''] never_interrupted) = 1
   \<and> sleep_calls (run BarCapable [''--quiet''] never_interrupted) = 0
   \<and> sleep_calls (run Basic [''x5''] never_interrupted) = 0"
proof -
  have t: "duration_token Basic [''abc''] = Some ''abc''"
    "malformed ''abc''"
    "duration_token BarCapable [''-q'', ''-5'', ''7''] = Some ''-5''"
    "malformed ''-5''"
    "duration_token Basic [''3.5'', ''--multiline''] = Some ''3.5''"
    "malformed ''3.5''"
    "duration_token BarCapable [''--quiet''] = None"
    "duration_token Basic [''x5''] = Some ''x5''"
    "malformed ''x5''"
    "duration_token BarCapable ['' -5''] = Some '' -5''"
    "malformed '' -5''"
    "duration_token Basic [''-3.5''] = Some ''-3.5''"
    "malformed ''-3.5''"
    "duration_token BarCapable [''+3.5'', ''-q''] = Some ''+3.5''"
    "malformed ''+3.5''"
    "duration_token Basic [''.5''] = Some ''.5''"
    "malformed ''.5''"
    "duration_token BarCapable [''-5x''] = Some ''-5x''"
    "malformed ''-5x''"
    "duration_token Basic [''9223372036854775808''] = Some ''9223372036854775808''"
    "too_large ''9223372036854775808''"
    by code_simp+
  have "case duration_token Basic [''abc''] of None \<Rightarrow> True
       | Some tok \<Rightarrow> malformed tok \<or> too_large tok"
    "case duration_token BarCapable [''-q'', ''-5'', ''7''] of None \<Rightarrow> True
       | Some tok \<Rightarrow> malformed tok \<or> too_large tok"
    "case duration_token Basic [''3.5'', ''--multiline''] of None \<Rightarrow> True
       | Some tok \<Rightarrow> malformed tok \<or> too_large tok"
    "case duration_token BarCapable [''--quiet''] of None \<Rightarrow> True
       | Some tok \<Rightarrow> malformed tok \<or> too_large tok"
    "case duration_token Basic [''x5''] of None \<Rightarrow> True
       | Some tok \<Rightarrow> malformed tok \<or> too_large tok"
    "case duration_token BarCapable ['' -5''] of None \<Rightarrow> True
       | Some tok \<Rightarrow> malformed tok \<or> too_large tok"
    "case duration_token Basic [''-3.5''] of None \<Rightarrow> True
       | Some tok \<Rightarrow> malformed tok \<or> too_large tok"
    "case duration_token BarCapable [''+3.5'', ''-q''] of None \<Rightarrow> True
       | Some tok \<Rightarrow> malformed tok \<or> too_large tok"
    "case duration_token Basic [''.5''] of None \<Rightarrow> True
       | Some tok \<Rightarrow> malformed tok \<or> too_large tok"
    "case duration_token BarCapable [''-5x''] of None \<Rightarrow> True
       | Some tok \<Rightarrow> malformed tok \<or> too_large tok"
    "case duration_token Basic [''9223372036854775808''] of None \<Rightarrow> True
       | Some tok \<Rightarrow> malformed tok \<or> too_large tok"
    by (simp_all add: t)
  from this [THEN malformed_duration, of never_interrupted] t
  show ?thesis by simp
qed

subsection \<open>What \<^verbatim>\<open>strtol\<close> and the checks accept\<close>

lemma strtol_accepts:
  assumes "list_all isspace ws" and "sg = [] \<or> sg = ''+''"
    and "ds \<noteq> []" and "list_all isdigit ds" and "decimal ds \<le> LONG_MAX"
  shows "strtol (ws @ sg @ ds) errno =
         \<lparr>ret = decimal ds, endp = length (ws @ sg @ ds), errno' = errno\<rparr>"
proof -
  define s where "s = ws @ sg @ ds"
  from assms(3) obtain d ds' where ds: "ds = d # ds'" by (cases ds) auto
  with assms(4) have d: "isdigit d" by simp
  have nsp: "sg @ ds \<noteq> [] \<and> \<not> isspace (hd (sg @ ds))"
    using assms(2) d digit_not_space sign_not_space by (auto simp: ds)
  then have tw0: "takeWhile isspace (sg @ ds) = []" "dropWhile isspace (sg @ ds) = sg @ ds"
    by (cases "sg @ ds"; simp)+
  have ws: "\<And>c. c \<in> set ws \<Longrightarrow> isspace c"
    using assms(1) by (simp add: list_all_iff)
  have tw: "takeWhile isspace s = ws"
    unfolding s_def using takeWhile_append2 [of ws isspace "sg @ ds"] ws tw0 by simp
  have dw: "dropWhile isspace s = sg @ ds"
    unfolding s_def using dropWhile_append2 [of ws isspace "sg @ ds"] ws tw0 by simp
  have td: "takeWhile isdigit ds = ds"
    using assms(4) by (simp add: list_all_iff)
  have nn: "0 \<le> decimal ds" using assms(4) by (rule decimal_nonneg)
  have len: "length s = length ws + length sg + length ds"
    by (simp add: s_def)
  from assms(2) have "strtol s errno = \<lparr>ret = decimal ds, endp = length s, errno' = errno\<rparr>"
  proof
    assume sg: "sg = []"
    then have dw': "dropWhile isspace s = ds" using dw by simp
    have c1: "(case ds of [] \<Rightarrow> False | c # cs \<Rightarrow> c = CHR ''-'') = False"
      and c2: "(case ds of [] \<Rightarrow> False | c # cs \<Rightarrow> c = CHR ''-'' \<or> c = CHR ''+'') = False"
      using digit_not_sign [OF d] by (simp_all add: ds)
    show ?thesis
      using nn assms(3,5)
      by (simp add: strtol_def Let_def tw dw' c1 c2 td len sg LONG_MIN_def)
  next
    assume sg: "sg = ''+''"
    then have dw': "dropWhile isspace s = CHR ''+'' # ds" using dw by simp
    show ?thesis
      using nn assms(3,5)
      by (simp add: strtol_def Let_def tw dw' td len sg LONG_MIN_def)
  qed
  then show ?thesis by (simp add: s_def)
qed

lemma strtol_not_rejected:
  assumes "list_all isspace ws" and "sg = [] \<or> sg = ''+''"
    and "ds \<noteq> []" and "list_all isdigit ds" and "decimal ds \<le> LONG_MAX"
  shows "\<not> rejected (ws @ sg @ ds) (strtol (ws @ sg @ ds) 0)"
  using assms(3) decimal_nonneg [OF assms(4)]
  by (simp add: strtol_accepts [OF assms] rejected_def)

lemma flag_non_numeric:
  "non_numeric ''--multiline''" "non_numeric ''--quiet''" "non_numeric ''-q''"
  by code_simp+

lemma flag_rejected: "is_flag a \<Longrightarrow> rejected a (strtol a errno)"
  using flag_non_numeric by (auto simp: is_flag_def intro: non_numeric_rejected)

lemma duration_plus_space:
  assumes "list_all isspace ws" and "sg = [] \<or> sg = ''+''"
    and "ds \<noteq> []" and "list_all isdigit ds" and "decimal ds \<le> LONG_MAX"
  shows "duration v [ws @ sg @ ds] = Some (decimal ds)"
proof -
  let ?a = "ws @ sg @ ds"
  have "\<not> is_flag ?a"
    using flag_rejected [of ?a 0] strtol_not_rejected [OF assms] by blast
  then have nf: "?a \<noteq> ''--multiline''" "?a \<noteq> ''--quiet''" "?a \<noteq> ''-q''"
    by (simp_all add: is_flag_def)
  show ?thesis
    using strtol_not_rejected [OF assms] nf decimal_nonneg [OF assms(4)]
    by (cases v)
       (auto simp: duration_def basic_args_def bar_args_def Let_def
          strtol_accepts [OF assms])
qed

lemma basic_loop_is_after:
  assumes "0 \<le> total' cfg"
  shows "basic_loop cfg env (basic_start cfg) = basic_after cfg env (Suc (nat (total' cfg)))"
  using basic_loop_after [of cfg env "Suc (nat (total' cfg))"]
    basic_loop_stop [OF basic_after_stops [OF assms], of cfg env] by simp

lemma bar_loop_is_after:
  assumes "0 \<le> total' cfg"
  shows "bar_loop cfg env (bar_start cfg) = bar_after cfg env (Suc (nat (total' cfg)))"
  using bar_loop_after [of cfg env "Suc (nat (total' cfg))"]
    bar_loop_stop [OF bar_after_stops [OF assms], of cfg env] by simp

lemma basic_after_shape:
  "(status (basic_after cfg env n) = Running \<or> status (basic_after cfg env n) = Finished
      \<or> status (basic_after cfg env n) = Returned 130)
   \<and> (\<exists>rest. trace (basic_after cfg env n) = Sleeping (total' cfg) # rest)"
proof (induction n)
  case 0
  then show ?case by (simp add: basic_start_def)
next
  case (Suc n)
  then show ?case
    by (auto simp: basic_iteration_def Let_def)
qed

lemma bar_after_shape:
  "(status (bar_after cfg env n) = Running \<or> status (bar_after cfg env n) = Finished
      \<or> status (bar_after cfg env n) = Returned 130)
   \<and> (\<exists>rest. trace (bar_after cfg env n) = StartEta # Sleeping (total' cfg) # rest)"
proof (induction n)
  case 0
  then show ?case by (simp add: bar_start_def)
next
  case (Suc n)
  then show ?case
    by (auto simp: bar_iteration_def Let_def)
qed

lemma accepted_run_proceeds:
  assumes "duration v args = Some D"
  shows "(exit_code (run v args env) = 0 \<or> exit_code (run v args env) = 130)
       \<and> Sleeping D \<in> set (events (run v args env))"
proof (cases v)
  case Basic
  with assms obtain cfg where cfg: "basic_args args = Inr cfg" "total' cfg = D"
    by (auto simp: duration_def split: sum.splits)
  then have D: "0 \<le> total' cfg" using basic_args_nonneg by blast
  have r: "run v args env = basic_countdown cfg env"
    using Basic cfg by (simp add: run_def basic_main_def)
  show ?thesis
    using basic_after_shape [of cfg env "Suc (nat (total' cfg))"] cfg(2)
    unfolding r basic_countdown_def basic_loop_is_after [OF D] Let_def
    by (auto split: status.splits)
next
  case BarCapable
  with assms obtain cfg where cfg: "bar_args args = Inr cfg" "total' cfg = D"
    by (auto simp: duration_def split: sum.splits)
  then have D: "0 \<le> total' cfg" using bar_args_nonneg by blast
  have r: "run v args env = bar_countdown cfg env"
    using BarCapable cfg by (simp add: run_def bar_main_def)
  show ?thesis
    using bar_after_shape [of cfg env "Suc (nat (total' cfg))"] cfg(2)
    unfolding r bar_countdown_def bar_loop_is_after [OF D] Let_def
    by (auto split: status.splits)
qed

text \<open>
  Claim C10. A duration token made of white space, then an optional plus sign, then one
  or more decimal digits (of a value that fits \<^verbatim>\<open>long\<close>) is accepted by every variant
  with the value of the digits, although it is not a plain decimal number when the
  white space or the sign is there: the run writes its header for that duration and
  does not exit with code 1.
\<close>

theorem plus_and_space_accepted:
  assumes "list_all isspace ws" and "sg = [] \<or> sg = ''+''"
    and "ds \<noteq> []" and "list_all isdigit ds" and "decimal ds \<le> LONG_MAX"
  shows "duration v [ws @ sg @ ds] = Some (decimal ds)
       \<and> exit_code (run v [ws @ sg @ ds] env) \<noteq> 1
       \<and> Sleeping (decimal ds) \<in> set (events (run v [ws @ sg @ ds] env))"
  using duration_plus_space [OF assms, of v]
    accepted_run_proceeds [OF duration_plus_space [OF assms, of v], of env]
  by auto

theorem plus_and_space_accepted_witness:
  "duration Basic [''+5''] = Some 5 \<and> duration BarCapable ['' 5''] = Some 5
   \<and> exit_code (run Basic [''+5''] never_interrupted) \<noteq> 1
   \<and> Sleeping 5 \<in> set (events (run BarCapable ['' 5''] never_interrupted))"
proof -
  have h: "list_all isspace []" "list_all isspace '' ''" "[] = [] \<or> [] = ''+''"
    "''+'' = [] \<or> ''+'' = ''+''" "''5'' \<noteq> []" "list_all isdigit ''5''"
    "decimal ''5'' \<le> LONG_MAX"
    by code_simp+
  have d: "decimal ''5'' = 5" by code_simp
  from plus_and_space_accepted [OF h(1) h(4) h(5) h(6) h(7), of Basic never_interrupted]
    plus_and_space_accepted [OF h(2) h(3) h(5) h(6) h(7), of BarCapable never_interrupted]
  show ?thesis by (simp add: d)
qed

subsection \<open>Tokens that are ignored\<close>

lemma bar_scan_keeps_duration:
  "total' cfg \<noteq> - 1 \<Longrightarrow>
   \<exists>cfg'. bar_scan rest cfg errno = Inr cfg' \<and> total' cfg' = total' cfg"
proof (induction rest arbitrary: cfg)
  case Nil
  then show ?case by simp
next
  case (Cons a rest)
  from Cons.prems have "total' (cfg\<lparr>multiline := True\<rparr>) \<noteq> - 1"
    "total' (cfg\<lparr>quiet := True\<rparr>) \<noteq> - 1"
    by simp_all
  from this [THEN Cons.IH] Cons.IH [OF Cons.prems] Cons.prems
  show ?case by simp
qed

lemma bar_scan_after_duration:
  "total' cfg \<noteq> - 1 \<Longrightarrow>
   bar_scan rest cfg errno = bar_scan (filter is_flag rest) cfg errno"
proof (induction rest arbitrary: cfg)
  case Nil
  then show ?case by simp
next
  case (Cons a rest)
  then show ?case
    by (simp add: is_flag_def)
qed

lemma bar_scan_flags_first:
  assumes "list_all is_flag pre" and "\<not> is_flag tok" and "total' cfg = - 1"
  shows "bar_scan (pre @ tok # post) cfg errno =
           bar_scan (pre @ tok # filter is_flag post) cfg errno
       \<and> (case bar_scan (pre @ tok # post) cfg errno of
             Inl msg \<Rightarrow> rejected tok (strtol tok errno)
           | Inr cfg' \<Rightarrow> \<not> rejected tok (strtol tok errno)
                         \<and> total' cfg' = ret (strtol tok errno))"
  using assms
proof (induction pre arbitrary: cfg)
  case Nil
  then have nf: "tok \<noteq> ''--multiline''" "tok \<noteq> ''--quiet''" "tok \<noteq> ''-q''"
    by (simp_all add: is_flag_def)
  show ?case
  proof (cases "rejected tok (strtol tok errno)")
    case True
    then show ?thesis using Nil by (simp add: nf Let_def)
  next
    case False
    let ?cfg = "cfg\<lparr>total' := ret (strtol tok errno)\<rparr>"
    from False have "total' ?cfg \<noteq> - 1" by (simp add: rejected_def)
    from bar_scan_after_duration [OF this, of post "errno' (strtol tok errno)"]
      bar_scan_keeps_duration [OF this, of post "errno' (strtol tok errno)"]
    show ?thesis using Nil False by (auto simp: nf Let_def)
  qed
next
  case (Cons a pre)
  from Cons.prems have fa: "is_flag a" and fp: "list_all is_flag pre" by simp_all
  define cfg2 where
    "cfg2 = (if a = ''--multiline'' then cfg\<lparr>multiline := True\<rparr>
             else cfg\<lparr>quiet := True\<rparr>)"
  have step: "bar_scan (a # rest) cfg errno = bar_scan rest cfg2 errno" for rest
    using fa by (auto simp: is_flag_def cfg2_def)
  have "total' cfg2 = - 1" using Cons.prems(3) by (simp add: cfg2_def)
  from Cons.IH [OF fp Cons.prems(2) this] show ?case
    unfolding append_Cons step .
qed

text \<open>
  Claim C5, as amended. In the bar variants, when the first token that is not one of
  the three flags is at hand, every later token that is not a flag is ignored: the run
  is the run of the command line without those tokens. That first token is the
  duration argument whatever it looks like: it alone decides whether the command line
  is accepted and with which duration, and when \<^verbatim>\<open>strtol\<close> and the checks reject it the
  run exits with code 1. In the basic variant \<^verbatim>\<open>argv[1]\<close> is the duration argument; a
  second argument other than \<^verbatim>\<open>--multiline\<close> is ignored, and more than two arguments
  are a usage error.
\<close>

theorem tokens_after_duration_ignored:
  assumes "list_all is_flag pre" and "\<not> is_flag tok"
  shows "run BarCapable (pre @ tok # post) env
           = run BarCapable (pre @ tok # filter is_flag post) env
       \<and> duration BarCapable (pre @ tok # post)
           = (if rejected tok (strtol tok 0) then None else Some (ret (strtol tok 0)))
       \<and> (rejected tok (strtol tok 0) \<longrightarrow>
            exit_code (run BarCapable (pre @ tok # post) env) = 1)
       \<and> (x \<noteq> ''--multiline'' \<longrightarrow> run Basic [tok, x] env = run Basic [tok] env)
       \<and> duration Basic (tok # post)
           = (if rejected tok (strtol tok 0) \<or> 1 < length post then None
              else Some (ret (strtol tok 0)))"
proof -
  let ?c0 = "\<lparr>multiline = False, total' = - 1, quiet = False\<rparr>"
  have c0: "total' ?c0 = - 1" by simp
  note scan = bar_scan_flags_first [OF assms c0, of post 0]
  have a: "bar_args (pre @ tok # post) = bar_args (pre @ tok # filter is_flag post)"
    using scan by (simp add: bar_args_def)
  have d: "duration BarCapable (pre @ tok # post)
           = (if rejected tok (strtol tok 0) then None else Some (ret (strtol tok 0)))"
    using scan by (auto simp: duration_def bar_args_def rejected_def split: sum.splits)
  have e: "rejected tok (strtol tok 0) \<longrightarrow>
      exit_code (run BarCapable (pre @ tok # post) env) = 1"
    using scan
    by (auto simp: run_def bar_main_def bar_args_def usage_error_def split: sum.splits)
  have b: "x \<noteq> ''--multiline'' \<longrightarrow> run Basic [tok, x] env = run Basic [tok] env"
    by (simp add: run_def basic_main_def basic_args_def Let_def)
  have f: "duration Basic (tok # post)
           = (if rejected tok (strtol tok 0) \<or> 1 < length post then None
              else Some (ret (strtol tok 0)))"
    by (auto simp: duration_def basic_args_def Let_def)
  from a d e b f show ?thesis
    by (simp add: run_def bar_main_def)
qed

theorem tokens_after_duration_ignored_witness:
  "list_all is_flag [''-q''] \<and> \<not> is_flag ''5''
   \<and> run BarCapable [''-q'', ''5'', ''--verbose'', ''7'', ''--multiline''] never_interrupted
       = run BarCapable [''-q'', ''5'', ''--multiline''] never_interrupted
   \<and> duration BarCapable [''-q'', ''5'', ''--verbose'', ''7'', ''--multiline''] = Some 5
   \<and> run Basic [''5'', ''--verbose''] never_interrupted = run Basic [''5''] never_interrupted"
proof -
  have h: "list_all is_flag [''-q'']" "\<not> is_flag ''5''"
    by code_simp+
  have r: "\<not> rejected ''5'' (strtol ''5'' 0)" "ret (strtol ''5'' 0) = 5"
    "filter is_flag [''--verbose'', ''7'', ''--multiline''] = [''--multiline'']"
    by code_simp+
  from h r
    tokens_after_duration_ignored [OF h, of "[''--verbose'', ''7'', ''--multiline'']"
      never_interrupted "''--verbose''"]
  show ?thesis by simp
qed

text \<open>
  The claim as stated fails: an unknown flag in front of the duration is given to
  \<^verbatim>\<open>strtol\<close> as the duration and the run ends with a usage error, where the same command
  line without it runs; and the basic variant takes no more than two arguments.
\<close>

theorem unknown_flag_counterexample:
  "exit_code (run BarCapable [''--verbose'', ''5''] never_interrupted) = 1
   \<and> events (run BarCapable [''--verbose'', ''5''] never_interrupted) = [ErrNotInteger]
   \<and> exit_code (run BarCapable [''5''] never_interrupted) = 0
   \<and> exit_code (run Basic [''--verbose'', ''5''] never_interrupted) = 1
   \<and> exit_code (run Basic [''5'', ''--verbose'', ''--multiline''] never_interrupted) = 1
   \<and> exit_code (run Basic [''5'', ''--multiline''] never_interrupted) = 0"
  by code_simp

subsection \<open>Rounding to single precision\<close>

lemma pow2_powi: "pow2 n = 2 powi n"
  by (simp add: pow2_def power_int_def inverse_eq_divide power_one_over)

lemma pow2_pos [simp]: "0 < pow2 n"
  by (simp add: pow2_powi)

lemma pow2_add: "pow2 (m + n) = pow2 m * pow2 n"
  by (simp add: pow2_powi power_int_add)

lemma pow2_less_iff: "(pow2 m < pow2 n) = (m < n)"
  unfolding pow2_powi
  by (metis linorder_not_le numeral_One numeral_less_iff one_less_numeral_iff
      power_int_increasing power_int_strict_increasing semiring_norm(76) order_less_imp_le)

lemma pow2_le_iff: "(pow2 m \<le> pow2 n) = (m \<le> n)"
  using pow2_less_iff [of n m] by auto

lemma pow2_nat: "pow2 (int n) = 2 ^ n"
  by (simp add: pow2_def)

lemma rne_of_int [simp]: "rne (of_int n) = n"
  by (simp add: rne_def)

lemma rne_floor: "\<lfloor>x\<rfloor> \<le> rne x \<and> rne x \<le> \<lfloor>x\<rfloor> + 1"
  by (simp add: rne_def Let_def)

lemma rne_mono: "x \<le> y \<Longrightarrow> rne x \<le> rne y"
proof -
  assume le: "x \<le> y"
  then have fl: "\<lfloor>x\<rfloor> \<le> \<lfloor>y\<rfloor>" by (rule floor_mono)
  show ?thesis
  proof (cases "\<lfloor>x\<rfloor> = \<lfloor>y\<rfloor>")
    case True
    with le have "x - of_int \<lfloor>x\<rfloor> \<le> y - of_int \<lfloor>y\<rfloor>" by simp
    then show ?thesis using True by (auto simp: rne_def Let_def)
  next
    case False
    with fl have "\<lfloor>x\<rfloor> + 1 \<le> \<lfloor>y\<rfloor>" by simp
    then show ?thesis using rne_floor [of x] rne_floor [of y] by linarith
  qed
qed

lemma rne_error: "\<bar>of_int (rne x) - x\<bar> \<le> 1 / 2"
proof -
  define r where "r = x - of_int \<lfloor>x\<rfloor>"
  have r: "0 \<le> r" "r < 1" unfolding r_def by linarith+
  have x: "x = of_int \<lfloor>x\<rfloor> + r" by (simp add: r_def)
  have "rne x = \<lfloor>x\<rfloor> \<and> r \<le> 1 / 2 \<or> rne x = \<lfloor>x\<rfloor> + 1 \<and> 1 / 2 \<le> r"
    unfolding rne_def Let_def r_def [symmetric] by (auto split: if_splits)
  then show ?thesis
  proof
    assume "rne x = \<lfloor>x\<rfloor> \<and> r \<le> 1 / 2"
    then have "of_int (rne x) - x = - r" by (simp add: r_def)
    then show ?thesis using r \<open>rne x = \<lfloor>x\<rfloor> \<and> r \<le> 1 / 2\<close> by simp
  next
    assume a: "rne x = \<lfloor>x\<rfloor> + 1 \<and> 1 / 2 \<le> r"
    then have "of_int (rne x) - x = 1 - r" by (simp add: r_def)
    then show ?thesis using r a by simp
  qed
qed

lemma exponent_bounds:
  assumes "0 < x"
  shows "pow2 (f32_exponent x) \<le> x \<and> x < pow2 (f32_exponent x + 1)"
proof -
  obtain a b where q: "quotient_of x = (a, b)" by (cases "quotient_of x")
  then have b: "0 < b" and x: "x = of_int a / of_int b"
    using quotient_of_denom_pos quotient_of_div by blast+
  with assms have a: "0 < a" by (simp add: zero_less_divide_iff)
  define m n where "m = bitlen a" and "n = bitlen b"
  have m: "2 ^ nat (m - 1) \<le> a" "a < 2 ^ nat m" and n: "2 ^ nat (n - 1) \<le> b" "b < 2 ^ nat n"
    using bitlen_bounds [OF a] bitlen_bounds [OF b] by (simp_all add: m_def n_def)
  have m1: "1 \<le> m" and n1: "1 \<le> n"
    using a b by (simp_all add: m_def n_def bitlen_alt_def)
  have ra: "pow2 (m - 1) \<le> of_int a" "of_int a < pow2 m"
  proof -
    have "(of_int (2 ^ nat (m - 1)) :: rat) \<le> of_int a" using m(1) by (simp only: of_int_le_iff)
    then show "pow2 (m - 1) \<le> of_int a" using m1 by (simp add: pow2_def)
    have "(of_int a :: rat) < of_int (2 ^ nat m)" using m(2) by (simp only: of_int_less_iff)
    then show "of_int a < pow2 m" using m1 by (simp add: pow2_def)
  qed
  have rb: "pow2 (n - 1) \<le> of_int b" "of_int b < pow2 n"
  proof -
    have "(of_int (2 ^ nat (n - 1)) :: rat) \<le> of_int b" using n(1) by (simp only: of_int_le_iff)
    then show "pow2 (n - 1) \<le> of_int b" using n1 by (simp add: pow2_def)
    have "(of_int b :: rat) < of_int (2 ^ nat n)" using n(2) by (simp only: of_int_less_iff)
    then show "of_int b < pow2 n" using n1 by (simp add: pow2_def)
  qed
  have bpos: "(0::rat) < of_int b" using b by simp
  have up: "x < pow2 (m - n + 1)"
  proof -
    have "x * of_int b = of_int a" using bpos by (simp add: x)
    also have "\<dots> < pow2 m" by (rule ra(2))
    also have "\<dots> = pow2 (m - n + 1) * pow2 (n - 1)" by (simp add: pow2_add [symmetric])
    also have "\<dots> \<le> pow2 (m - n + 1) * of_int b"
      using rb(1) by (simp add: mult_left_mono)
    finally show ?thesis using bpos by simp
  qed
  have lo: "pow2 (m - n - 1) < x"
  proof -
    have "pow2 (m - n - 1) * of_int b < pow2 (m - n - 1) * pow2 n"
      using rb(2) by (simp add: mult_strict_left_mono)
    also have "\<dots> = pow2 (m - 1)" by (simp add: pow2_add [symmetric])
    also have "\<dots> \<le> of_int a" by (rule ra(1))
    also have "\<dots> = x * of_int b" using bpos by (simp add: x)
    finally show ?thesis using bpos by simp
  qed
  show ?thesis
    using up lo by (auto simp: f32_exponent_def q Let_def m_def [symmetric] n_def [symmetric])
qed

lemma pow2_vals:
  "pow2 0 = 1" "pow2 23 = 2 ^ 23" "pow2 24 = 2 ^ 24" "pow2 (- 1) = 1 / 2"
  "pow2 (- 25) = 1 / 2 ^ 25" "pow2 (- 24) = 1 / 2 ^ 24" "pow2 (- 17) = 1 / 2 ^ 17"
  by (simp_all add: pow2_def)

lemma pow2_join: "pow2 a * pow2 (b - a) = pow2 b" "pow2 (b - a) * pow2 a = pow2 b"
  by (simp_all add: pow2_add [symmetric])

lemma pow2_nonneg [simp]: "0 \<le> pow2 n"
  using pow2_pos [of n] by (rule less_imp_le)

lemma f32_round_pos:
  "0 < x \<Longrightarrow> f32_round x =
     of_int (rne (x * pow2 (23 - f32_exponent x))) * pow2 (f32_exponent x - 23)"
  by (simp add: f32_round_def Let_def)

lemma mantissa_bounds:
  assumes "0 < x"
  shows "2 ^ 23 \<le> rne (x * pow2 (23 - f32_exponent x))
       \<and> rne (x * pow2 (23 - f32_exponent x)) \<le> 2 ^ 24"
proof -
  let ?p = "f32_exponent x"
  let ?z = "x * pow2 (23 - ?p)"
  from exponent_bounds [OF assms] have b: "pow2 ?p \<le> x" "x < pow2 (?p + 1)" by simp_all
  have "pow2 ?p * pow2 (23 - ?p) \<le> ?z"
    using b(1) by (rule mult_right_mono) simp
  then have "pow2 23 \<le> ?z" by (simp only: pow2_join)
  then have lo: "of_int (2 ^ 23) \<le> ?z" by (simp add: pow2_vals)
  have "?z \<le> pow2 (?p + 1) * pow2 (23 - ?p)"
    using b(2) by (intro mult_right_mono less_imp_le) simp_all
  also have "pow2 (?p + 1) * pow2 (23 - ?p) = pow2 24"
    by (simp only: pow2_add [symmetric]) (rule arg_cong [where f = pow2], simp)
  finally have hi: "?z \<le> of_int (2 ^ 24)" by (simp add: pow2_vals)
  from rne_mono [OF lo] rne_mono [OF hi] show ?thesis
    by (simp only: rne_of_int)
qed

lemma f32_round_bounds:
  assumes "0 < x"
  shows "pow2 (f32_exponent x) \<le> f32_round x \<and> f32_round x \<le> pow2 (f32_exponent x + 1)"
proof -
  let ?p = "f32_exponent x"
  let ?m = "rne (x * pow2 (23 - ?p))"
  from mantissa_bounds [OF assms]
  have "(of_int (2 ^ 23) :: rat) \<le> of_int ?m" "(of_int ?m :: rat) \<le> of_int (2 ^ 24)"
    by (simp_all only: of_int_le_iff)
  then have m: "pow2 23 \<le> of_int ?m" "of_int ?m \<le> pow2 24"
    by (simp_all add: pow2_vals)
  have "pow2 23 * pow2 (?p - 23) \<le> of_int ?m * pow2 (?p - 23)"
    using m(1) by (rule mult_right_mono) simp
  then have lo: "pow2 ?p \<le> f32_round x"
    by (simp only: pow2_join f32_round_pos [OF assms])
  have "of_int ?m * pow2 (?p - 23) \<le> pow2 24 * pow2 (?p - 23)"
    using m(2) by (rule mult_right_mono) simp
  also have "pow2 24 * pow2 (?p - 23) = pow2 (?p + 1)"
    by (simp only: pow2_add [symmetric]) (rule arg_cong [where f = pow2], simp)
  finally have hi: "f32_round x \<le> pow2 (?p + 1)"
    by (simp only: f32_round_pos [OF assms])
  from lo hi show ?thesis by blast
qed

lemma f32_round_nonneg: "0 \<le> x \<Longrightarrow> 0 \<le> f32_round x"
proof (cases "x = 0")
  case True
  then show ?thesis by (simp add: f32_round_def)
next
  case False
  assume "0 \<le> x"
  with False have "0 < x" by simp
  from f32_round_bounds [OF this] pow2_pos [of "f32_exponent x"] show ?thesis
    by linarith
qed

lemma f32_round_mono:
  assumes "0 \<le> x" and "x \<le> y"
  shows "f32_round x \<le> f32_round y"
proof (cases "x = 0")
  case True
  then show ?thesis using assms f32_round_nonneg [of y] by (simp add: f32_round_def)
next
  case False
  with assms have x: "0 < x" and y: "0 < y" by simp_all
  let ?p = "f32_exponent x" and ?q = "f32_exponent y"
  have "pow2 ?p \<le> x" "y < pow2 (?q + 1)"
    using exponent_bounds [OF x] exponent_bounds [OF y] by simp_all
  with assms(2) have "pow2 ?p < pow2 (?q + 1)" by linarith
  then have pq: "?p \<le> ?q" by (simp add: pow2_less_iff)
  show ?thesis
  proof (cases "?p = ?q")
    case True
    have "x * pow2 (23 - ?q) \<le> y * pow2 (23 - ?q)"
      using assms(2) by (rule mult_right_mono) simp
    then have "rne (x * pow2 (23 - ?q)) \<le> rne (y * pow2 (23 - ?q))" by (rule rne_mono)
    then have "(of_int (rne (x * pow2 (23 - ?q))) :: rat) \<le> of_int (rne (y * pow2 (23 - ?q)))"
      by (simp only: of_int_le_iff)
    then have "of_int (rne (x * pow2 (23 - ?q))) * pow2 (?q - 23)
        \<le> of_int (rne (y * pow2 (23 - ?q))) * pow2 (?q - 23)"
      by (rule mult_right_mono) simp
    then show ?thesis
      by (simp only: f32_round_pos [OF x] f32_round_pos [OF y] True)
  next
    case False
    with pq have "?p + 1 \<le> ?q" by simp
    then have "pow2 (?p + 1) \<le> pow2 ?q" by (simp only: pow2_le_iff)
    with f32_round_bounds [OF x] f32_round_bounds [OF y] show ?thesis by linarith
  qed
qed

lemma f32_round_error:
  assumes "0 < x"
  shows "\<bar>f32_round x - x\<bar> \<le> pow2 (f32_exponent x - 24)"
proof -
  let ?p = "f32_exponent x"
  let ?z = "x * pow2 (23 - ?p)"
  have "pow2 (23 - ?p) * pow2 (?p - 23) = pow2 0"
    by (simp only: pow2_add [symmetric]) (rule arg_cong [where f = pow2], simp)
  then have "?z * pow2 (?p - 23) = x" by (simp add: mult.assoc pow2_vals)
  then have "f32_round x - x = (of_int (rne ?z) - ?z) * pow2 (?p - 23)"
    by (simp only: f32_round_pos [OF assms] left_diff_distrib)
  then have "\<bar>f32_round x - x\<bar> = \<bar>of_int (rne ?z) - ?z\<bar> * pow2 (?p - 23)"
    by (simp only: abs_mult abs_of_nonneg [OF pow2_nonneg])
  also have "\<dots> \<le> pow2 (- 1) * pow2 (?p - 23)"
    using rne_error [of ?z] by (intro mult_right_mono) (simp_all add: pow2_vals)
  also have "\<dots> = pow2 (?p - 24)"
    by (simp only: pow2_add [symmetric]) (rule arg_cong [where f = pow2], simp)
  finally show ?thesis .
qed

lemma f32_round_exact:
  assumes "0 < m" and "m < 2 ^ 24"
  shows "f32_round (of_int m * pow2 j) = of_int m * pow2 j"
proof -
  define x :: rat where "x = of_int m * pow2 j"
  let ?p = "f32_exponent x"
  have x: "0 < x" using assms(1) by (simp add: x_def)
  have "(of_int m :: rat) < of_int (2 ^ 24)" using assms(2) by (simp only: of_int_less_iff)
  then have "of_int m < pow2 24" by (simp add: pow2_vals)
  then have "of_int m * pow2 j < pow2 24 * pow2 j"
    by (rule mult_strict_right_mono) simp
  then have "x < pow2 (24 + j)" by (simp only: x_def pow2_add)
  moreover have "pow2 ?p \<le> x" using exponent_bounds [OF x] by simp
  ultimately have "pow2 ?p < pow2 (24 + j)" by linarith
  then have "?p < 24 + j" by (simp only: pow2_less_iff)
  then have "0 \<le> j + 23 - ?p" by simp
  then obtain k where k: "j + 23 - ?p = int k"
    using nonneg_int_cases by blast
  have "j + (23 - ?p) = int k" using k by simp
  then have "pow2 j * pow2 (23 - ?p) = pow2 (int k)"
    by (simp only: pow2_add [symmetric])
  then have "x * pow2 (23 - ?p) = of_int m * pow2 (int k)"
    by (simp add: x_def mult.assoc)
  also have "\<dots> = (of_int (m * 2 ^ k) :: rat)" by (simp add: pow2_nat)
  finally have z: "x * pow2 (23 - ?p) = of_int (m * 2 ^ k)" .
  have "f32_round x = of_int (m * 2 ^ k) * pow2 (?p - 23)"
    by (simp only: f32_round_pos [OF x] z rne_of_int)
  also have "\<dots> = of_int m * (pow2 (int k) * pow2 (?p - 23))" by (simp add: pow2_nat)
  also have "pow2 (int k) * pow2 (?p - 23) = pow2 j"
    by (simp only: pow2_add [symmetric] k [symmetric]) (rule arg_cong [where f = pow2], simp)
  finally show ?thesis by (simp only: x_def)
qed

lemma f32_of_long_exact: "0 \<le> n \<Longrightarrow> n < 2 ^ 24 \<Longrightarrow> f32_of_long n = of_int n"
  using f32_round_exact [of n 0]
  by (cases "n = 0") (simp_all add: f32_of_long_def f32_round_def pow2_vals)

text \<open>Evaluating a rounding: the exponent by search, the nearest integer by division.\<close>

lemma exponent_unique:
  assumes "pow2 p \<le> x" and "x < pow2 (p + 1)"
  shows "f32_exponent x = p"
proof -
  have x: "0 < x" using pow2_pos [of p] assms(1) by linarith
  from exponent_bounds [OF x]
  have "pow2 (f32_exponent x) < pow2 (p + 1)" "pow2 p < pow2 (f32_exponent x + 1)"
    using assms by linarith+
  then show ?thesis by (simp add: pow2_less_iff)
qed

lemma find_exponent_correct:
  "x < pow2 (p + 1) \<Longrightarrow> pow2 (p - int n) \<le> x \<Longrightarrow> f32_exponent x = find_exponent n p x"
proof (induction n arbitrary: p)
  case 0
  then show ?case by (simp add: exponent_unique)
next
  case (Suc n)
  show ?case
  proof (cases "pow2 p \<le> x")
    case True
    then show ?thesis using Suc.prems(1) by (simp add: exponent_unique)
  next
    case False
    then have "x < pow2 (p - 1 + 1)" by simp
    moreover have "pow2 (p - 1 - int n) \<le> x" using Suc.prems(2) by (simp add: algebra_simps)
    ultimately have "f32_exponent x = find_exponent n (p - 1) x" by (rule Suc.IH)
    then show ?thesis using False by simp
  qed
qed

lemma f32_round_eval:
  assumes "1 / 2 ^ 10 \<le> x" and "x < 2 ^ 7"
  shows "f32_round x =
     (let p = find_exponent 16 6 x in of_int (rne (x * pow2 (23 - p))) * pow2 (p - 23))"
proof -
  have x: "0 < x" using assms(1) by (simp add: less_le_trans [OF _ assms(1)])
  have "f32_exponent x = find_exponent 16 6 x"
    by (rule find_exponent_correct) (use assms in \<open>simp_all add: pow2_def\<close>)
  then show ?thesis by (simp add: f32_round_pos [OF x] Let_def)
qed

lemma find_exponent_numeral:
  "find_exponent (numeral k) p x = (if pow2 p \<le> x then p else find_exponent (pred_numeral k) (p - 1) x)"
  by (simp add: numeral_eq_Suc)

lemma rne_frac:
  assumes "0 < b"
  shows "rne (of_int a / of_int b) =
     (if 2 * (a mod b) < b then a div b else if b < 2 * (a mod b) then a div b + 1
      else if even (a div b) then a div b else a div b + 1)"
proof -
  have br: "(0::rat) < of_int b" using assms by simp
  have f: "\<lfloor>(of_int a :: rat) / of_int b\<rfloor> = a div b" by (simp add: floor_divide_of_int_eq)
  have "(of_int a :: rat) = of_int (b * (a div b) + a mod b)" by simp
  then have "(of_int a :: rat) = of_int b * of_int (a div b) + of_int (a mod b)"
    by (simp only: of_int_add of_int_mult)
  then have r: "(of_int a :: rat) / of_int b - of_int (a div b) = of_int (a mod b) / of_int b"
    using br by (simp add: field_simps)
  have lt: "((of_int (a mod b) :: rat) / of_int b < 1 / 2) = (2 * (a mod b) < b)"
  proof -
    have "((of_int (a mod b) :: rat) / of_int b < 1 / 2) = ((of_int (2 * (a mod b)) :: rat) < of_int b)"
      using br by (simp add: field_simps)
    then show ?thesis by (simp only: of_int_less_iff)
  qed
  have gt: "(1 / 2 < (of_int (a mod b) :: rat) / of_int b) = (b < 2 * (a mod b))"
  proof -
    have "(1 / 2 < (of_int (a mod b) :: rat) / of_int b) = ((of_int b :: rat) < of_int (2 * (a mod b)))"
      using br by (simp add: field_simps)
    then show ?thesis by (simp only: of_int_less_iff)
  qed
  show ?thesis unfolding rne_def Let_def f r lt gt by simp
qed

lemma rne_numeral:
  "rne (numeral a / numeral b) =
     (if 2 * (numeral a mod numeral b) < (numeral b :: int) then numeral a div numeral b
      else if (numeral b :: int) < 2 * (numeral a mod numeral b) then numeral a div numeral b + 1
      else if even (numeral a div numeral b :: int) then numeral a div numeral b
      else numeral a div numeral b + 1)"
  "rne (numeral a) = numeral a"
  using rne_frac [of "numeral b" "numeral a"] rne_of_int [of "numeral a"] by simp_all

lemmas f32_eval = f32_round_eval find_exponent_numeral pow2_def rne_numeral Let_def

lemma f32_round_zero: "f32_round 0 = 0"
  by (simp add: f32_round_def)

text \<open>The relative error of a rounding is at most \<open>2^-24\<close>.\<close>

lemma f32_round_relative:
  assumes "0 \<le> x"
  shows "x * (1 - 1 / 2 ^ 24) \<le> f32_round x \<and> f32_round x \<le> x * (1 + 1 / 2 ^ 24)"
proof (cases "x = 0")
  case True
  then show ?thesis by (simp add: f32_round_def)
next
  case False
  with assms have x: "0 < x" by simp
  let ?p = "f32_exponent x"
  have v: "pow2 (- 24) = 1 / 2 ^ 24" by (simp add: pow2_def)
  have "pow2 (?p - 24) = pow2 ?p * pow2 (- 24)"
    by (simp only: pow2_add [symmetric]) (rule arg_cong [where f = pow2], simp)
  also have "\<dots> \<le> x * pow2 (- 24)"
    using exponent_bounds [OF x] by (intro mult_right_mono) simp_all
  finally have "pow2 (?p - 24) \<le> x / 2 ^ 24" by (simp add: v)
  with f32_round_error [OF x] have "\<bar>f32_round x - x\<bar> \<le> x / 2 ^ 24" by linarith
  then have "f32_round x - x \<le> x / 2 ^ 24" "x - f32_round x \<le> x / 2 ^ 24" by linarith+
  then show ?thesis by (simp add: algebra_simps)
qed

subsection \<open>The bar: ranges and monotonicity\<close>

lemma f32_round_one [simp]: "f32_round 1 = 1"
  using f32_round_exact [of 1 0] by (simp add: pow2_vals)

lemma f32_round_int: "0 \<le> n \<Longrightarrow> n < 2 ^ 24 \<Longrightarrow> f32_round (of_int n) = of_int n"
  using f32_of_long_exact [of n] by (simp add: f32_of_long_def)

lemma f32_of_long_mono: "0 \<le> m \<Longrightarrow> m \<le> n \<Longrightarrow> f32_of_long m \<le> f32_of_long n"
  by (simp add: f32_of_long_def f32_round_mono)

lemma f32_of_long_ge_one: "1 \<le> n \<Longrightarrow> 1 \<le> f32_of_long n"
  using f32_round_mono [of 1 "of_int n"] by (simp add: f32_of_long_def)

lemma f32_of_long_nonneg: "0 \<le> n \<Longrightarrow> 0 \<le> f32_of_long n"
  by (simp add: f32_of_long_def f32_round_nonneg)

lemma f32_of_long_20 [simp]: "f32_of_long 20 = 20" and f32_of_long_100 [simp]: "f32_of_long 100 = 100"
  using f32_of_long_exact [of 20] f32_of_long_exact [of 100] by simp_all

lemma percentage_range:
  assumes "0 \<le> e" and "e \<le> d"
  shows "0 \<le> percentage e d \<and> percentage e d \<le> 1"
proof (cases "d = 0")
  case True
  then show ?thesis by (simp add: percentage_def)
next
  case False
  with assms have d: "1 \<le> d" by simp
  let ?a = "f32_of_long e" and ?b = "f32_of_long d"
  have a: "0 \<le> ?a" "?a \<le> ?b" and b: "0 < ?b"
    using assms d f32_of_long_nonneg f32_of_long_mono f32_of_long_ge_one [OF d] by auto
  then have q: "0 \<le> ?a / ?b" "?a / ?b \<le> 1" by simp_all
  from f32_round_nonneg [OF q(1)] f32_round_mono [OF q] show ?thesis
    using False by (simp add: percentage_def f32_div_def)
qed

lemma percentage_mono:
  assumes "0 \<le> e" and "e \<le> e'" and "0 \<le> d"
  shows "percentage e d \<le> percentage e' d"
proof (cases "d = 0")
  case True
  then show ?thesis by (simp add: percentage_def)
next
  case False
  with assms have d: "1 \<le> d" by simp
  let ?a = "f32_of_long e" and ?a' = "f32_of_long e'" and ?b = "f32_of_long d"
  have "0 \<le> ?a" "?a \<le> ?a'" "0 < ?b"
    using assms f32_of_long_nonneg f32_of_long_mono f32_of_long_ge_one [OF d] by auto
  then have "0 \<le> ?a / ?b" "?a / ?b \<le> ?a' / ?b"
    by (simp_all add: divide_right_mono)
  from f32_round_mono [OF this] show ?thesis
    using False by (simp add: percentage_def f32_div_def)
qed

lemma scaled_range:
  assumes "0 \<le> p" and "p \<le> 1" and "0 \<le> w" and "w < 2 ^ 24"
  shows "0 \<le> int_of_f32 (f32_mul p (of_int w)) \<and> int_of_f32 (f32_mul p (of_int w)) \<le> w"
proof -
  have "0 \<le> p * of_int w" "p * of_int w \<le> of_int w"
    using assms by (simp_all add: mult_left_le_one_le)
  from f32_round_nonneg [OF this(1)] f32_round_mono [OF this]
  have "0 \<le> f32_mul p (of_int w)" "f32_mul p (of_int w) \<le> of_int w"
    using assms by (simp_all add: f32_mul_def f32_round_int)
  then show ?thesis
    by (simp add: int_of_f32_def floor_le_iff)
qed

lemma scaled_mono:
  assumes "0 \<le> p" and "p \<le> p'" and "0 \<le> w"
  shows "int_of_f32 (f32_mul p (of_int w)) \<le> int_of_f32 (f32_mul p' (of_int w))"
proof -
  have "0 \<le> p * of_int w" "p * of_int w \<le> p' * of_int w"
    using assms by (simp_all add: mult_right_mono)
  from f32_round_nonneg [OF this(1)] f32_round_mono [OF this]
  show ?thesis
    by (simp add: int_of_f32_def f32_mul_def floor_mono)
qed


lemma upto_filter_less:
  "0 \<le> fw \<Longrightarrow> fw \<le> b + 1 \<Longrightarrow> filter (\<lambda>i. i < fw) [0..b] = [0..fw - 1]"
proof -
  assume a: "0 \<le> fw" "fw \<le> b + 1"
  show ?thesis
  proof (cases "fw \<le> b")
    case True
    with a have "[0..b] = [0..fw - 1] @ [fw..b]" by (simp add: upto_split1)
    then show ?thesis by (simp add: filter_empty_conv)
  next
    case False
    with a have "fw - 1 = b" by simp
    then show ?thesis by simp
  qed
qed

lemma length_bar_cells: "length (bar_cells fw) = 20"
  by (simp add: bar_cells_def BAR_WIDTH_def)

lemma filled_bar_cells:
  assumes "0 \<le> fw" and "fw \<le> 20"
  shows "length (filter (\<lambda>c. c = Filled) (bar_cells fw)) = nat fw"
proof -
  have "filter (\<lambda>c. c = Filled) (bar_cells fw)
      = map (\<lambda>i. if i < fw then Filled else Empty) (filter (\<lambda>i. i < fw) [0..19])"
    by (simp add: bar_cells_def BAR_WIDTH_def filter_map comp_def)
  also have "filter (\<lambda>i. i < fw) [0..19] = [0..fw - 1]"
    using assms by (simp add: upto_filter_less)
  finally show ?thesis using assms by simp
qed

lemma filled_width_range:
  assumes "0 \<le> e" and "e \<le> d"
  shows "0 \<le> filled_width e d \<and> filled_width e d \<le> 20"
  using scaled_range [of "percentage e d" 20] percentage_range [OF assms]
  by (simp add: filled_width_def BAR_WIDTH_def)

lemma percent_shown_range:
  assumes "0 \<le> e" and "e \<le> d"
  shows "0 \<le> percent_shown e d \<and> percent_shown e d \<le> 100"
  using scaled_range [of "percentage e d" 100] percentage_range [OF assms]
  by (simp add: percent_shown_def)

lemma filled_cells_eq: "0 \<le> e \<Longrightarrow> e \<le> d \<Longrightarrow> filled_cells e d = nat (filled_width e d)"
  using filled_width_range [of e d] by (simp add: filled_cells_def filled_bar_cells)

lemma percentage_full: "0 \<le> d \<Longrightarrow> percentage d d = 1"
proof (cases "d = 0")
  case True
  then show ?thesis by (simp add: percentage_def)
next
  case False
  assume "0 \<le> d"
  with False have "1 \<le> d" by simp
  from f32_of_long_ge_one [OF this] show ?thesis
    using False by (simp add: percentage_def f32_div_def)
qed

lemma full_at_end: "0 \<le> d \<Longrightarrow> filled_width d d = 20 \<and> percent_shown d d = 100"
  using f32_round_int [of 20] f32_round_int [of 100]
  by (simp add: filled_width_def percent_shown_def percentage_full f32_mul_def
      BAR_WIDTH_def int_of_f32_def)

subsection \<open>The bar: cells and percentage against the exact quotient\<close>

lemma percentage_exact_args:
  "0 \<le> e \<Longrightarrow> e \<le> d \<Longrightarrow> 1 \<le> d \<Longrightarrow> d < 2 ^ 24 \<Longrightarrow>
   percentage e d = f32_round (of_int e / of_int d)"
  by (simp add: percentage_def f32_div_def f32_of_long_exact)

lemma div_bounds:
  fixes e d w :: int
  assumes "0 \<le> e" and "e \<le> d" and "1 \<le> d" and "1 \<le> w"
  shows "0 \<le> (w * e) div d" and "(w * e) div d \<le> w"
    and "d * ((w * e) div d) \<le> w * e" and "w * e < d * ((w * e) div d + 1)"
    and "e < d \<Longrightarrow> (w * e) div d < w"
proof -
  let ?k = "(w * e) div d"
  have d: "0 < d" using assms(3) by simp
  have we: "0 \<le> w * e" using assms by simp
  show k0: "0 \<le> ?k" using we d by (simp add: pos_imp_zdiv_nonneg_iff)
  have eq: "w * e = d * ?k + (w * e) mod d" by simp
  have m: "0 \<le> (w * e) mod d" "(w * e) mod d < d" using d by simp_all
  show lo: "d * ?k \<le> w * e" using eq m(1) by linarith
  have "d * (?k + 1) = d * ?k + d" by (simp add: algebra_simps)
  then show hi: "w * e < d * (?k + 1)" using eq m(2) by linarith
  have "w * e \<le> d * w" using assms by (simp add: mult.commute mult_left_mono)
  with lo have "d * ?k \<le> d * w" by linarith
  then show "?k \<le> w" using d by simp
  assume "e < d"
  then have "w * e < d * w" using assms(4) by (simp add: mult.commute)
  with lo have "d * ?k < d * w" by linarith
  then show "?k < w" using d by simp
qed

lemma below_integer_exact:
  assumes "1 \<le> t" and "t \<le> 127"
  shows "f32_round (of_int t - 1 / 2 ^ 17) = of_int t - 1 / 2 ^ 17"
proof -
  have "0 < t * 2 ^ 17 - 1" "t * 2 ^ 17 - 1 < 2 ^ 24" using assms by simp_all
  from f32_round_exact [OF this, of "- 17"] show ?thesis
    by (simp add: pow2_vals algebra_simps)
qed

text \<open>From below: the bar never shows fewer cells than \<open>\<lfloor>20 e / d\<rfloor>\<close>.\<close>

lemma fill_table_a:
  "list_all (\<lambda>j. of_int j \<le> f32_round (f32_round (of_int j / 20) * 20)) [0..6]"
  by (simp add: f32_eval f32_round_zero upto_rec1)

lemma fill_table_b:
  "list_all (\<lambda>j. of_int j \<le> f32_round (f32_round (of_int j / 20) * 20)) [7..13]"
  by (simp add: f32_eval upto_rec1)

lemma fill_table_c:
  "list_all (\<lambda>j. of_int j \<le> f32_round (f32_round (of_int j / 20) * 20)) [14..20]"
  by (simp add: f32_eval upto_rec1)

lemma fill_table:
  assumes "0 \<le> j" and "j \<le> 20"
  shows "of_int j \<le> f32_round (f32_round (of_int j / 20) * 20)"
proof -
  have "j \<in> set [0..6] \<or> j \<in> set [7..13] \<or> j \<in> set [14..20]"
    unfolding set_upto atLeastAtMost_iff using assms by linarith
  with fill_table_a fill_table_b fill_table_c show ?thesis
    unfolding list_all_iff by blast
qed

lemma below_one_20: "f32_round ((1 - 1 / 2 ^ 24) * 20) < 20"
  by (simp add: f32_eval)

lemma fill_lower:
  assumes "0 \<le> e" and "e \<le> d" and "1 \<le> d"
  shows "(20 * e) div d \<le> \<lfloor>f32_round (f32_round (of_int e / of_int d) * 20)\<rfloor>"
proof -
  define k where "k = (20 * e) div d"
  define q :: rat where "q = of_int e / of_int d"
  have dr: "(0::rat) < of_int d" using assms(3) by simp
  note db = div_bounds [OF assms, of 20]
  have k: "0 \<le> k" "k \<le> 20" using db(1,2) by (simp_all add: k_def)
  have "(of_int (d * k) :: rat) \<le> of_int (20 * e)" using db(3) by (simp only: of_int_le_iff k_def)
  then have "(of_int k * of_int d :: rat) \<le> 20 * of_int e" by (simp add: mult.commute)
  then have "(of_int k :: rat) \<le> 20 * of_int e / of_int d"
    using dr by (simp add: pos_le_divide_eq)
  then have "(of_int k :: rat) / 20 \<le> q" by (simp add: q_def mult.commute)
  moreover have "(0::rat) \<le> of_int k / 20" using k by simp
  ultimately have "f32_round (of_int k / 20) \<le> f32_round q" by (rule f32_round_mono [rotated])
  then have "f32_round (of_int k / 20) * 20 \<le> f32_round q * 20" by simp
  moreover have "0 \<le> f32_round (of_int k / 20) * 20"
    using f32_round_nonneg [of "of_int k / 20"] k by simp
  ultimately have "f32_round (f32_round (of_int k / 20) * 20) \<le> f32_round (f32_round q * 20)"
    by (rule f32_round_mono [rotated])
  with fill_table [OF k] have "of_int k \<le> f32_round (f32_round q * 20)" by linarith
  then have "k \<le> \<lfloor>f32_round (f32_round q * 20)\<rfloor>" by (simp only: le_floor_iff)
  then show ?thesis by (simp only: k_def q_def)
qed

text \<open>
  From above. When \<open>w e < t d\<close>, the quotient \<open>e / d\<close> stays below \<open>t / w\<close> by at least
  \<open>1 / (w d)\<close>, and by twice that when \<open>t d - w e\<close> cannot be 1. So for durations up to
  762612 (and 147218 for the percentage) the quotient is at most the bound of \<open>t\<close>, and
  the bound itself, rounded, scaled and rounded again, is still less than \<open>t\<close>.
\<close>

lemma below_target:
  assumes "0 \<le> q" and "q \<le> c" and "0 \<le> w"
    and "f32_round (f32_round c * w) < of_int t"
  shows "\<lfloor>f32_round (f32_round q * w)\<rfloor> < t"
proof -
  have "f32_round q \<le> f32_round c" using assms(1,2) by (rule f32_round_mono)
  then have "f32_round q * w \<le> f32_round c * w" using assms(3) by (rule mult_right_mono)
  moreover have "0 \<le> f32_round q * w"
    using f32_round_nonneg [OF assms(1)] assms(3) by simp
  ultimately have "f32_round (f32_round q * w) \<le> f32_round (f32_round c * w)"
    by (rule f32_round_mono [rotated])
  with assms(4) have "f32_round (f32_round q * w) < of_int t" by linarith
  then show ?thesis by (simp only: floor_less_iff)
qed

lemma quotient_below:
  fixes e d t w r b :: int
  assumes "1 \<le> d" and "d \<le> b" and "1 \<le> w" and "1 \<le> r" and "w * e + r \<le> t * d"
  shows "(of_int e :: rat) / of_int d \<le> of_int t / of_int w - of_int r / (of_int w * of_int b)"
proof -
  have dr: "(0::rat) < of_int d" and wr: "(0::rat) < of_int w" and br: "(0::rat) < of_int b"
    using assms by simp_all
  have "(of_int (w * e + r) :: rat) \<le> of_int (t * d)" using assms(5) by (simp only: of_int_le_iff)
  then have "(of_int w * of_int e :: rat) \<le> of_int t * of_int d - of_int r" by simp
  then have "(of_int e :: rat) \<le> (of_int t * of_int d - of_int r) / of_int w"
    using wr by (simp add: pos_le_divide_eq mult.commute)
  then have "(of_int e :: rat) / of_int d \<le> (of_int t * of_int d - of_int r) / of_int w / of_int d"
    by (rule divide_right_mono) (use dr in simp)
  also have "\<dots> = of_int t / of_int w - of_int r / (of_int w * of_int d)"
    using dr wr by (simp add: field_simps)
  also have "\<dots> \<le> of_int t / of_int w - of_int r / (of_int w * of_int b)"
  proof -
    have "(of_int d :: rat) \<le> of_int b" using assms(2) by (simp only: of_int_le_iff)
    then have "(of_int w * of_int d :: rat) \<le> of_int w * of_int b"
      using wr by simp
    moreover have "(0::rat) \<le> of_int r" using assms(4) by simp
    ultimately have "(of_int r :: rat) / (of_int w * of_int b) \<le> of_int r / (of_int w * of_int d)"
      using dr wr by (intro divide_left_mono) simp_all
    then show ?thesis by simp
  qed
  finally show ?thesis .
qed

lemma no_unit_gap_17:
  fixes d e :: int
  assumes "762600 < d" and "d \<le> 762612"
  shows "17 * d - 20 * e \<noteq> 1"
proof
  assume "17 * d - 20 * e = 1"
  then have d: "d = 20 * (13 * e - 11 * d) + 13" by simp
  define m where "m = 13 * e - 11 * d"
  have "m \<le> 38129 \<or> 38130 \<le> m" by linarith
  then show False using d assms unfolding m_def [symmetric] by linarith
qed

lemma no_unit_gap_79:
  fixes d e :: int
  assumes "147168 < d" and "d \<le> 147218"
  shows "79 * d - 100 * e \<noteq> 1"
proof
  assume "79 * d - 100 * e = 1"
  then have d: "d = 100 * (19 * e - 15 * d) + 19" by simp
  define m where "m = 19 * e - 15 * d"
  have "m \<le> 1471 \<or> 1472 \<le> m" by linarith
  then show False using d assms unfolding m_def [symmetric] by linarith
qed

lemma fill_bound_list: "list_all (\<lambda>t. f32_round (f32_round (fill_bound t) * 20) < of_int t) [1..20]"
  by (simp add: fill_bound_def f32_eval upto_rec1)

lemma percent_bound_list: "list_all (\<lambda>t. f32_round (f32_round (percent_bound t) * 100) < of_int t) [1..100]"
  by (simp add: percent_bound_def f32_eval upto_rec1)

lemma fill_bound_table:
  assumes "1 \<le> t" and "t \<le> 20"
  shows "f32_round (f32_round (fill_bound t) * 20) < of_int t"
proof -
  have "t \<in> set [1..20]" using assms by simp
  with fill_bound_list show ?thesis unfolding list_all_iff by blast
qed

lemma percent_bound_table:
  assumes "1 \<le> t" and "t \<le> 100"
  shows "f32_round (f32_round (percent_bound t) * 100) < of_int t"
proof -
  have "t \<in> set [1..100]" using assms by simp
  with percent_bound_list show ?thesis unfolding list_all_iff by blast
qed

lemma quotient_le_fill_bound:
  fixes e d t :: int
  assumes "1 \<le> d" and "d \<le> 762612" and "20 * e + 1 \<le> t * d"
  shows "(of_int e :: rat) / of_int d \<le> fill_bound t"
proof (cases "t = 17")
  case False
  from quotient_below [where w = 20 and r = 1 and b = 762612, OF assms(1,2) _ _ assms(3)]
  show ?thesis using False by (simp add: fill_bound_def)
next
  case True
  show ?thesis
  proof (cases "d \<le> 762600")
    case d: True
    from quotient_below [where w = 20 and r = 1 and b = 762600, OF assms(1) d _ _ assms(3)]
    show ?thesis using True by (simp add: fill_bound_def)
  next
    case False
    then have "762600 < d" by simp
    from no_unit_gap_17 [OF this assms(2), of e] assms(3) True
    have "20 * e + 2 \<le> t * d" by simp
    from quotient_below [where w = 20 and r = 2 and b = 762612, OF assms(1,2) _ _ this]
    have "(of_int e :: rat) / of_int d \<le> 17 / 20 - 2 / (20 * 762612)"
      using True by simp
    also have "\<dots> \<le> fill_bound 17" by (simp add: fill_bound_def)
    finally show ?thesis using True by simp
  qed
qed

lemma quotient_le_percent_bound:
  fixes e d t :: int
  assumes "1 \<le> d" and "d \<le> 147218" and "100 * e + 1 \<le> t * d"
  shows "(of_int e :: rat) / of_int d \<le> percent_bound t"
proof (cases "t = 79")
  case False
  from quotient_below [where w = 100 and r = 1 and b = 147218, OF assms(1,2) _ _ assms(3)]
  show ?thesis using False by (simp add: percent_bound_def)
next
  case True
  show ?thesis
  proof (cases "d \<le> 147168")
    case d: True
    from quotient_below [where w = 100 and r = 1 and b = 147168, OF assms(1) d _ _ assms(3)]
    show ?thesis using True by (simp add: percent_bound_def)
  next
    case False
    then have "147168 < d" by simp
    from no_unit_gap_79 [OF this assms(2), of e] assms(3) True
    have "100 * e + 2 \<le> t * d" by simp
    from quotient_below [where w = 100 and r = 2 and b = 147218, OF assms(1,2) _ _ this]
    have "(of_int e :: rat) / of_int d \<le> 79 / 100 - 2 / (100 * 147218)"
      using True by simp
    also have "\<dots> \<le> percent_bound 79" by (simp add: percent_bound_def)
    finally show ?thesis using True by simp
  qed
qed

lemma fill_upper:
  assumes "0 \<le> e" and "e < d" and "d \<le> 762612"
  shows "\<lfloor>f32_round (f32_round (of_int e / of_int d) * 20)\<rfloor> \<le> (20 * e) div d"
proof -
  define k where "k = (20 * e) div d"
  have d: "1 \<le> d" using assms by simp
  have w: "(1::int) \<le> 20" by simp
  note db = div_bounds [OF assms(1) less_imp_le [OF assms(2)] d w]
  have k: "0 \<le> k" "k < 20" using db(1) db(5) [OF assms(2)] by (simp_all add: k_def)
  have "20 * e + 1 \<le> (k + 1) * d" using db(4) by (simp add: k_def mult.commute)
  from quotient_le_fill_bound [OF d assms(3) this]
  have q: "(of_int e :: rat) / of_int d \<le> fill_bound (k + 1)" .
  have q0: "(0::rat) \<le> of_int e / of_int d" using assms(1) d by simp
  have "f32_round (f32_round (fill_bound (k + 1)) * 20) < of_int (k + 1)"
    using k by (intro fill_bound_table) simp_all
  from below_target [OF q0 q _ this]
  have "\<lfloor>f32_round (f32_round (of_int e / of_int d) * 20)\<rfloor> < k + 1" by simp
  then show ?thesis by (simp add: k_def)
qed

lemma percent_upper:
  assumes "0 \<le> e" and "e < d" and "d \<le> 147218"
  shows "\<lfloor>f32_round (f32_round (of_int e / of_int d) * 100)\<rfloor> \<le> (100 * e) div d"
proof -
  define k where "k = (100 * e) div d"
  have d: "1 \<le> d" using assms by simp
  have w: "(1::int) \<le> 100" by simp
  note db = div_bounds [OF assms(1) less_imp_le [OF assms(2)] d w]
  have k: "0 \<le> k" "k < 100" using db(1) db(5) [OF assms(2)] by (simp_all add: k_def)
  have "100 * e + 1 \<le> (k + 1) * d" using db(4) by (simp add: k_def mult.commute)
  from quotient_le_percent_bound [OF d assms(3) this]
  have q: "(of_int e :: rat) / of_int d \<le> percent_bound (k + 1)" .
  have q0: "(0::rat) \<le> of_int e / of_int d" using assms(1) d by simp
  have "f32_round (f32_round (percent_bound (k + 1)) * 100) < of_int (k + 1)"
    using k by (intro percent_bound_table) simp_all
  from below_target [OF q0 q _ this]
  have "\<lfloor>f32_round (f32_round (of_int e / of_int d) * 100)\<rfloor> < k + 1" by simp
  then show ?thesis by (simp add: k_def)
qed

text \<open>
  For every duration: the three roundings of \<^verbatim>\<open>(float)elapsed / total\<close> change the quotient
  by a factor between \<open>1 - 3 / 2^24\<close> and \<open>1 + 4 / 2^24\<close>, which moves the scaled and
  truncated value by at most one.
\<close>

lemma percentage_relative:
  assumes "0 \<le> e" and "e \<le> d" and "1 \<le> d"
  shows "of_int e / of_int d * (1 - 3 / 2 ^ 24) \<le> percentage e d"
    and "percentage e d \<le> of_int e / of_int d * (1 + 4 / 2 ^ 24)"
proof -
  define u :: rat where "u = 1 / 2 ^ 24"
  define a where "a = f32_of_long e"
  define b where "b = f32_of_long d"
  define q :: rat where "q = of_int e / of_int d"
  have u: "0 < 1 - u" "0 < 1 + u" by (simp_all add: u_def)
  have er: "(0::rat) \<le> of_int e" and dr: "(0::rat) < of_int d" using assms by simp_all
  have a: "of_int e * (1 - u) \<le> a" "a \<le> of_int e * (1 + u)"
    using f32_round_relative [OF er] by (simp_all add: a_def f32_of_long_def u_def)
  have b: "of_int d * (1 - u) \<le> b" "b \<le> of_int d * (1 + u)"
    using f32_round_relative [OF less_imp_le [OF dr]] by (simp_all add: b_def f32_of_long_def u_def)
  have a0: "0 \<le> a" using f32_of_long_nonneg [OF assms(1)] by (simp add: a_def)
  have b0: "0 < b" using f32_of_long_ge_one [OF assms(3)] by (simp add: b_def)
  have ab: "0 \<le> a / b" using a0 b0 by simp
  have p: "percentage e d = f32_round (a / b)"
    using assms(3) by (simp add: percentage_def f32_div_def a_def b_def)
  have q0: "0 \<le> q" using er dr by (simp add: q_def)
  have "a / b \<le> of_int e * (1 + u) / (of_int d * (1 - u))"
    using er u a(2) dr b(1) by (intro frac_le) simp_all
  also have "\<dots> = q * ((1 + u) / (1 - u))" by (simp add: q_def)
  finally have hi: "a / b \<le> q * ((1 + u) / (1 - u))" .
  have "of_int e * (1 - u) / (of_int d * (1 + u)) \<le> a / b"
    using a0 a(1) b0 b(2) by (intro frac_le) simp_all
  moreover have "of_int e * (1 - u) / (of_int d * (1 + u)) = q * ((1 - u) / (1 + u))"
    by (simp add: q_def)
  ultimately have lo: "q * ((1 - u) / (1 + u)) \<le> a / b" by simp
  have "percentage e d \<le> a / b * (1 + u)"
    using f32_round_relative [OF ab] by (simp add: p u_def)
  also have "\<dots> \<le> q * ((1 + u) / (1 - u)) * (1 + u)"
    using hi u(2) by (intro mult_right_mono) simp_all
  also have "\<dots> = q * ((1 + u) / (1 - u) * (1 + u))" by (simp only: mult.assoc)
  also have "\<dots> \<le> q * (1 + 4 / 2 ^ 24)"
    using q0 by (intro mult_left_mono) (simp_all add: u_def)
  finally show "percentage e d \<le> of_int e / of_int d * (1 + 4 / 2 ^ 24)"
    by (simp only: q_def)
  have "q * (1 - 3 / 2 ^ 24) \<le> q * ((1 - u) / (1 + u) * (1 - u))"
    using q0 by (intro mult_left_mono) (simp_all add: u_def)
  also have "\<dots> = q * ((1 - u) / (1 + u)) * (1 - u)" by (simp only: mult.assoc)
  also have "\<dots> \<le> a / b * (1 - u)"
    using lo u(1) by (intro mult_right_mono) simp_all
  also have "\<dots> \<le> percentage e d"
    using f32_round_relative [OF ab] by (simp add: p u_def)
  finally show "of_int e / of_int d * (1 - 3 / 2 ^ 24) \<le> percentage e d"
    by (simp only: q_def)
qed

lemma scaled_within_one:
  assumes "0 \<le> e" and "e \<le> d" and "1 \<le> d" and "1 \<le> w" and "w \<le> 100"
  shows "(w * e) div d - 1 \<le> int_of_f32 (f32_mul (percentage e d) (of_int w))
       \<and> int_of_f32 (f32_mul (percentage e d) (of_int w)) \<le> (w * e) div d + 1"
proof -
  define k where "k = (w * e) div d"
  define q :: rat where "q = of_int e / of_int d"
  define z where "z = percentage e d * of_int w"
  have dr: "(0::rat) < of_int d" using assms(3) by simp
  have wr: "(0::rat) \<le> of_int w" "(of_int w :: rat) \<le> of_int 100"
    using assms(4,5) by simp_all
  note db = div_bounds [OF assms(1,2,3,4)]
  have k: "0 \<le> k" "k \<le> w" using db(1,2) by (simp_all add: k_def)
  have kr: "(of_int k :: rat) \<le> of_int 100" using k(2) assms(5) by (simp only: of_int_le_iff)
  have q0: "0 \<le> q" using assms(1) dr by (simp add: q_def)
  have "(of_int (d * k) :: rat) \<le> of_int (w * e)" using db(3) by (simp only: of_int_le_iff k_def)
  then have "(of_int k * of_int d :: rat) \<le> of_int w * of_int e" by (simp add: mult.commute)
  then have "(of_int k :: rat) \<le> of_int w * of_int e / of_int d"
    using dr by (simp add: pos_le_divide_eq)
  then have qlo: "of_int k \<le> q * of_int w" by (simp add: q_def mult.commute)
  have "(of_int (w * e) :: rat) \<le> of_int (d * (k + 1))"
    using db(4) by (simp only: of_int_le_iff k_def)
  then have "(of_int w * of_int e :: rat) \<le> (of_int k + 1) * of_int d" by (simp add: mult.commute)
  then have "(of_int w * of_int e :: rat) / of_int d \<le> of_int k + 1"
    using dr by (simp add: pos_divide_le_eq)
  then have qhi: "q * of_int w \<le> of_int k + 1" by (simp add: q_def mult.commute)
  have p0: "0 \<le> percentage e d" using percentage_range [OF assms(1,2)] by simp
  have z0: "0 \<le> z" using p0 wr(1) by (simp add: z_def)
  have r0: "0 \<le> f32_round z" using z0 by (rule f32_round_nonneg)
  have res: "int_of_f32 (f32_mul (percentage e d) (of_int w)) = \<lfloor>f32_round z\<rfloor>"
    using r0 by (simp add: int_of_f32_def f32_mul_def z_def)
  have lo: "k - 1 \<le> \<lfloor>f32_round z\<rfloor>"
  proof (cases "k \<le> 1")
    case True
    from r0 have "0 \<le> \<lfloor>f32_round z\<rfloor>" by (simp add: zero_le_floor)
    with True show ?thesis by linarith
  next
    case False
    then have k1: "0 \<le> k - 1" by simp
    have "of_int k * (1 - 3 / 2 ^ 24) \<le> q * of_int w * (1 - 3 / 2 ^ 24)"
      using qlo by (intro mult_right_mono) simp_all
    also have "\<dots> = q * (1 - 3 / 2 ^ 24) * of_int w" by (simp only: mult.assoc mult.commute [of "of_int w"])
    also have "\<dots> \<le> z"
      unfolding z_def using percentage_relative(1) [OF assms(1,2,3)] wr(1)
      by (intro mult_right_mono) (simp_all add: q_def)
    finally have "of_int k * (1 - 3 / 2 ^ 24) \<le> z" .
    moreover have "of_int k * (1 - 3 / 2 ^ 24) = (of_int k :: rat) - of_int k * (3 / 2 ^ 24)"
      by (simp only: right_diff_distrib mult_1_right)
    ultimately have "of_int (k - 1) \<le> z" using kr by simp
    have "k - 1 < 2 ^ 24" using k(2) assms(5) by simp
    from f32_round_int [OF k1 this] f32_round_mono [OF _ \<open>of_int (k - 1) \<le> z\<close>] k1
    have "of_int (k - 1) \<le> f32_round z" by simp
    then show ?thesis by (simp only: le_floor_iff)
  qed
  have hi: "\<lfloor>f32_round z\<rfloor> \<le> k + 1"
  proof -
    have "z \<le> q * (1 + 4 / 2 ^ 24) * of_int w"
      unfolding z_def using percentage_relative(2) [OF assms(1,2,3)] wr(1)
      by (intro mult_right_mono) (simp_all add: q_def)
    also have "\<dots> = q * of_int w * (1 + 4 / 2 ^ 24)" by (simp only: mult.assoc mult.commute [of "of_int w"])
    also have "\<dots> \<le> (of_int k + 1) * (1 + 4 / 2 ^ 24)"
      using qhi by (intro mult_right_mono) simp_all
    also have "\<dots> = (of_int k :: rat) + 1 + (of_int k + 1) * (4 / 2 ^ 24)"
      by (simp only: distrib_left mult_1_right)
    finally have zz: "z \<le> of_int k + 1 + (of_int k + 1) * (4 / 2 ^ 24)" .
    have "(of_int k + 1) * (4 / 2 ^ 24) \<le> (100 + 1) * (4 / 2 ^ 24 :: rat)"
      using kr by (intro mult_right_mono) simp_all
    also have "\<dots> \<le> 1 - 1 / 2 ^ 17" by simp
    finally have "of_int k + 1 + (of_int k + 1) * (4 / 2 ^ 24)
        \<le> of_int k + 1 + (1 - 1 / 2 ^ 17 :: rat)"
      by (rule add_left_mono)
    with zz have "z \<le> of_int k + 1 + (1 - 1 / 2 ^ 17)" by (rule order_trans)
    then have "z \<le> of_int (k + 2) - 1 / 2 ^ 17" by simp
    with z0 have "f32_round z \<le> f32_round (of_int (k + 2) - 1 / 2 ^ 17)"
      by (rule f32_round_mono)
    also have "\<dots> = of_int (k + 2) - 1 / 2 ^ 17"
      using k assms(5) by (intro below_integer_exact) simp_all
    also have "\<dots> < of_int (k + 2)" by simp
    finally have "\<lfloor>f32_round z\<rfloor> < k + 2" by (simp only: floor_less_iff)
    then show ?thesis by simp
  qed
  from lo hi show ?thesis by (simp only: res k_def) 
qed

lemma filled_width_floor:
  assumes "0 \<le> e" and "e \<le> d" and "1 \<le> d" and "d \<le> 762612"
  shows "filled_width e d = (20 * e) div d"
proof (cases "e = d")
  case True
  then show ?thesis using full_at_end [of d] assms by simp
next
  case False
  with assms have lt: "e < d" by simp
  have p: "percentage e d = f32_round (of_int e / of_int d)"
    using assms by (intro percentage_exact_args) simp_all
  have nn: "0 \<le> f32_mul (percentage e d) 20"
    using percentage_range [OF assms(1,2)] by (simp add: f32_mul_def f32_round_nonneg)
  have "filled_width e d = \<lfloor>f32_round (f32_round (of_int e / of_int d) * 20)\<rfloor>"
    using nn by (simp add: filled_width_def BAR_WIDTH_def int_of_f32_def p f32_mul_def)
  with fill_upper [OF assms(1) lt assms(4)] fill_lower [OF assms(1,2,3)]
  show ?thesis by simp
qed

lemma percent_shown_upper:
  assumes "0 \<le> e" and "e \<le> d" and "1 \<le> d" and "d \<le> 147218"
  shows "percent_shown e d \<le> (100 * e) div d"
proof (cases "e = d")
  case True
  then show ?thesis using full_at_end [of d] assms by simp
next
  case False
  with assms have lt: "e < d" by simp
  have p: "percentage e d = f32_round (of_int e / of_int d)"
    using assms by (intro percentage_exact_args) simp_all
  have nn: "0 \<le> f32_mul (percentage e d) 100"
    using percentage_range [OF assms(1,2)] by (simp add: f32_mul_def f32_round_nonneg)
  have "percent_shown e d = \<lfloor>f32_round (f32_round (of_int e / of_int d) * 100)\<rfloor>"
    using nn by (simp add: percent_shown_def int_of_f32_def p f32_mul_def)
  with percent_upper [OF assms(1) lt assms(4)] show ?thesis by simp
qed

lemma within_one:
  assumes "0 \<le> e" and "e \<le> d" and "1 \<le> d"
  shows "(20 * e) div d - 1 \<le> filled_width e d \<and> filled_width e d \<le> (20 * e) div d + 1
       \<and> (100 * e) div d - 1 \<le> percent_shown e d \<and> percent_shown e d \<le> (100 * e) div d + 1"
  using scaled_within_one [OF assms, of 20] scaled_within_one [OF assms, of 100]
  by (simp add: filled_width_def percent_shown_def BAR_WIDTH_def)

lemma not_full_before_end:
  assumes "0 \<le> e" and "e < d" and "d \<le> 2 ^ 24"
  shows "filled_width e d < 20"
proof -
  have dr: "(0::rat) < of_int d" using assms by simp
  have ed: "f32_of_long e = of_int e" using assms by (intro f32_of_long_exact) simp_all
  have dd: "f32_of_long d = of_int d"
  proof (cases "d = 2 ^ 24")
    case True
    have "f32_round (of_int 1 * pow2 24) = of_int 1 * pow2 24"
      by (rule f32_round_exact) simp_all
    then show ?thesis by (simp add: True f32_of_long_def pow2_vals)
  next
    case False
    with assms show ?thesis by (intro f32_of_long_exact) simp_all
  qed
  have p: "percentage e d = f32_round (of_int e / of_int d)"
    using assms by (simp add: percentage_def f32_div_def ed dd)
  have "e + 1 \<le> d" using assms(2) by simp
  then have "(of_int (e + 1) :: rat) \<le> of_int d" by (simp only: of_int_le_iff)
  then have "(of_int e :: rat) \<le> of_int d - 1" by simp
  then have "of_int e / of_int d \<le> (of_int d - 1) / (of_int d :: rat)"
    using dr by (simp add: divide_right_mono)
  also have "\<dots> = 1 - 1 / of_int d" using dr by (simp add: diff_divide_distrib)
  also have "\<dots> \<le> 1 - 1 / 2 ^ 24"
  proof -
    have "(of_int d :: rat) \<le> of_int (2 ^ 24)" using assms(3) by (simp only: of_int_le_iff)
    then have "1 / 2 ^ 24 \<le> 1 / (of_int d :: rat)" using dr by (simp add: frac_le)
    then show ?thesis by simp
  qed
  finally have q: "of_int e / of_int d \<le> (1 - 1 / 2 ^ 24 :: rat)" .
  have q0: "(0::rat) \<le> of_int e / of_int d" using assms by simp
  have "f32_round (of_int e / of_int d) \<le> f32_round (1 - 1 / 2 ^ 24)"
    using q0 q by (rule f32_round_mono)
  also have "f32_round (1 - 1 / 2 ^ 24) = 1 - 1 / 2 ^ 24"
    using f32_round_exact [of "2 ^ 24 - 1" "- 24"] by (simp add: pow2_vals algebra_simps)
  finally have "f32_round (of_int e / of_int d) * 20 \<le> (1 - 1 / 2 ^ 24) * 20" by simp
  moreover have "0 \<le> f32_round (of_int e / of_int d) * 20"
    using f32_round_nonneg [OF q0] by simp
  ultimately have "f32_round (f32_round (of_int e / of_int d) * 20)
      \<le> f32_round ((1 - 1 / 2 ^ 24) * 20)"
    by (rule f32_round_mono [rotated])
  with below_one_20 have lt: "f32_round (f32_round (of_int e / of_int d) * 20) < 20" by linarith
  then have "\<lfloor>f32_round (f32_round (of_int e / of_int d) * 20)\<rfloor> < 20"
    by (simp add: floor_less_iff)
  moreover have "0 \<le> f32_round (f32_round (of_int e / of_int d) * 20)"
    using f32_round_nonneg [OF q0] by (intro f32_round_nonneg) simp
  ultimately show ?thesis
    by (simp add: filled_width_def BAR_WIDTH_def int_of_f32_def p f32_mul_def)
qed




text \<open>
  Claim C8, as amended. For a fixed duration the number of filled cells does not
  decrease as \<^verbatim>\<open>elapsed\<close> grows from 0 to the duration, and it is 20 when \<^verbatim>\<open>elapsed\<close> is
  the duration; for a duration of at most \<open>2^24\<close> seconds it is 20 only then.
\<close>

theorem bar_fill_monotone:
  assumes "0 \<le> e" and "e \<le> e'" and "e' \<le> d"
  shows "filled_cells e d \<le> filled_cells e' d
       \<and> filled_cells d d = 20
       \<and> (d \<le> 2 ^ 24 \<longrightarrow> (filled_cells e d = 20) = (e = d))"
proof -
  have e: "0 \<le> e" "e \<le> d" and e': "0 \<le> e'" "e' \<le> d" and d: "0 \<le> d"
    using assms by simp_all
  have "percentage e d \<le> percentage e' d"
    using assms(1,2) d by (rule percentage_mono)
  then have "filled_width e d \<le> filled_width e' d"
    using percentage_range [OF e] scaled_mono [of "percentage e d" "percentage e' d" 20]
    by (simp add: filled_width_def BAR_WIDTH_def)
  then have m: "filled_cells e d \<le> filled_cells e' d"
    using filled_width_range [OF e] by (simp add: filled_cells_eq e e')
  have f: "filled_cells d d = 20"
    using full_at_end [OF d] d by (simp add: filled_cells_eq)
  have "(filled_cells e d = 20) = (e = d)" if "d \<le> 2 ^ 24"
  proof (cases "e = d")
    case True
    then show ?thesis using f by simp
  next
    case False
    with e have "e < d" by simp
    from not_full_before_end [OF e(1) this that] filled_width_range [OF e]
    show ?thesis using False by (simp add: filled_cells_eq e)
  qed
  with m f show ?thesis by blast
qed

theorem bar_fill_monotone_witness:
  "filled_cells 1 4 \<le> filled_cells 2 4 \<and> filled_cells 4 4 = 20 \<and> filled_cells 1 4 \<noteq> 20"
  using bar_fill_monotone [of 1 2 4] by simp

text \<open>
  Beyond \<open>2^24\<close> the conversion of the duration to \<^verbatim>\<open>float\<close> rounds, and the bar is full
  one second early.
\<close>

theorem bar_full_early_counterexample:
  "filled_cells 16777216 16777217 = 20 \<and> (16777216 :: int) < 16777217"
  by code_simp

end
